theory Spec2Isabelle
  imports Complex_Main "HOL-Library.Extended_Nat"
begin

section \<open>Data model\<close>

text \<open>
  Instants are JavaScript \<open>Date\<close> values; every comparison and subtraction the code does on
  them goes through their millisecond count, so an instant is an \<open>int\<close> (milliseconds since
  the epoch). Heights are JavaScript numbers holding well-formed finite readings; they are
  modelled as \<open>real\<close>, on which \<open>\<le>\<close>, \<open><\<close> and \<open>>\<close> are the comparisons of the code.
  A field that may hold \<open>null\<close> is an \<open>option\<close>.
\<close>

text \<open>One element of the arrays the remote source returns: \<open>{eventDate, value}\<close>, with
  \<open>eventDate\<close> already read by \<open>new Date(...)\<close>. The field \<open>value\<close> is called \<open>val\<close> here.\<close>

record rawSample =
  eventDate :: int
  val :: real

text \<open>One row built by \<open>mergeTideData\<close>: \<open>{time, timeString, prediction, observation}\<close>.\<close>

record tideEntry =
  time :: int
  timeString :: string
  prediction :: real
  observation :: "real option"

text \<open>The object built by \<open>findAccessWindows\<close>:
  \<open>{start, startTide, entries, end, endTide}\<close>; the field \<open>end\<close> is called \<open>end'\<close> here.\<close>

record accessWindow =
  start :: int
  startTide :: real
  entries :: "tideEntry list"
  end' :: int
  endTide :: real

text \<open>The object returned by \<open>getCurrentAccessStatus\<close>; the branch for an empty series
  leaves \<open>entry\<close> out, which is \<open>None\<close> here.\<close>

record accessStatus =
  accessible :: bool
  status :: string
  tide :: "real option"
  entry :: "tideEntry option"

text \<open>The object returned by \<open>getCountdown\<close>: \<open>{type, ms, window}\<close>.\<close>

record countdown =
  type :: string
  ms :: int
  window :: accessWindow

text \<open>The object returned by \<open>findHighLowTides\<close>: \<open>{high, low}\<close>.\<close>

record highLow =
  high :: "tideEntry option"
  low :: "tideEntry option"

section \<open>The host: local time and locale\<close>

text \<open>
  \<open>Date.getMinutes\<close> and \<open>Date.toLocaleTimeString\<close> read the time zone and the locale data
  of the browser. They are parameters of the model: \<open>tzMinutes h t\<close> is the number of minutes
  local time is ahead of UTC at the instant \<open>t\<close>, and \<open>localeTime h t\<close> is the 12-hour label
  of \<open>t\<close>.
\<close>

record host =
  tzMinutes :: "int \<Rightarrow> int"
  localeTime :: "int \<Rightarrow> string"
  dayStart :: "int \<Rightarrow> int"
  dayEnd :: "int \<Rightarrow> int"

definition getMinutes :: "host \<Rightarrow> int \<Rightarrow> int" where
  "getMinutes h t = (t div 60000 + tzMinutes h t) mod 60"

text \<open>
  The local calendar day of an instant, as the number of the day: the local wall clock in
  minutes, divided by the 1440 minutes of a day. \<open>dayStart h d\<close> is the instant at which a
  \<open>Date\<close> set to \<open>0:00:00.000\<close> of the local day \<open>d\<close> stands, and \<open>dayEnd h d\<close> the
  instant of \<open>23:59:59.999\<close> of that day; both depend on the zone's rules and are parameters.
\<close>

definition localDay :: "host \<Rightarrow> int \<Rightarrow> int" where
  "localDay h t = (t div 60000 + tzMinutes h t) div 1440"

text \<open>\<open>d.setHours(0, 0, 0, 0)\<close>, and \<open>new Date(y, m, d, 0, 0, 0, 0)\<close> for the day of \<open>t\<close>.\<close>

definition setHours0 :: "host \<Rightarrow> int \<Rightarrow> int" where
  "setHours0 h t = dayStart h (localDay h t)"

text \<open>\<open>new Date(y, m, d, 23, 59, 59, 999)\<close> for the day of \<open>t\<close>.\<close>

definition endOfDay :: "host \<Rightarrow> int \<Rightarrow> int" where
  "endOfDay h t = dayEnd h (localDay h t)"

section \<open>Tide calculations\<close>

definition METERS_TO_FEET :: real where
  "METERS_TO_FEET = 328084 / 100000"

text \<open>The constant \<open>accessThreshold = 1.1\<close> that \<open>findAccessWindows\<close> and
  \<open>getCurrentAccessStatus\<close> each declare.\<close>

definition accessThreshold :: real where
  "accessThreshold = 11 / 10"

subsection \<open>filterQuarterHour\<close>

definition onQuarterHour :: "host \<Rightarrow> rawSample \<Rightarrow> bool" where
  "onQuarterHour h ent =
     (let minutes = getMinutes h (eventDate ent)
      in minutes = 0 \<or> minutes = 15 \<or> minutes = 30 \<or> minutes = 45)"

definition filterQuarterHour :: "host \<Rightarrow> rawSample list \<Rightarrow> rawSample list" where
  "filterQuarterHour h data = filter (onQuarterHour h) data"

subsection \<open>Numbers as text\<close>

text \<open>Decimal digits of a natural number, as \<open>ToString\<close> writes an integer.
  \<open>digitChar\<close> is only ever applied to a number below 10.\<close>

definition digitChar :: "nat \<Rightarrow> char" where
  "digitChar d = ''0123456789'' ! d"

fun showNat :: "nat \<Rightarrow> string" where
  "showNat n = (if n < 10 then [digitChar n] else showNat (n div 10) @ [digitChar (n mod 10)])"

declare showNat.simps [simp del]

definition showInt :: "int \<Rightarrow> string" where
  "showInt i = (if i < 0 then CHR ''-'' # showNat (nat (- i)) else showNat (nat i))"

text \<open>
  \<open>x.toFixed(2)\<close> for a finite \<open>x\<close> below \<open>10^21\<close> in size: a minus sign for \<open>x < 0\<close>, then the
  integer \<open>n\<close> nearest to \<open>100 * |x|\<close> (the larger one of two nearest), written with a point
  before its last two digits.
\<close>

definition toFixed2 :: "real \<Rightarrow> string" where
  "toFixed2 x =
     (let n = nat \<lfloor>\<bar>x\<bar> * 100 + 1 / 2\<rfloor>
      in (if x < 0 then ''-'' else []) @ showNat (n div 100) @ ''.'' @
         [digitChar (n div 10 mod 10), digitChar (n mod 10)])"

text \<open>
  \<open>parseFloat\<close>: skip leading white space, then read the longest prefix that is a decimal
  literal (sign, digits, fraction, exponent) and ignore what follows; \<open>NaN\<close>, here \<open>None\<close>,
  when there is no such prefix. The literal \<open>Infinity\<close> is outside the model, and the white
  space is that of ASCII.
\<close>

definition isDigit :: "char \<Rightarrow> bool" where
  "isDigit c = (48 \<le> (of_char c :: nat) \<and> (of_char c :: nat) \<le> 57)"

definition isSpace :: "char \<Rightarrow> bool" where
  "isSpace c = ((of_char c :: nat) \<in> {9, 10, 11, 12, 13, 32})"

definition digitsValue :: "string \<Rightarrow> nat" where
  "digitsValue ds = foldl (\<lambda>acc c. 10 * acc + ((of_char c :: nat) - 48)) 0 ds"

text \<open>The sign in front of a number or of an exponent: whether it is a minus, and the
  rest of the text.\<close>

fun readSign :: "string \<Rightarrow> bool \<times> string" where
  "readSign [] = (False, [])"
| "readSign (c # cs) =
     (if c = CHR ''-'' then (True, cs) else if c = CHR ''+'' then (False, cs) else (False, c # cs))"

text \<open>The exponent part behind the mantissa, as a factor; 1 when there is none.\<close>

fun readExponent :: "string \<Rightarrow> real" where
  "readExponent [] = 1"
| "readExponent (c # cs) =
     (if c = CHR ''e'' \<or> c = CHR ''E'' then
        (case readSign cs of
           (negative, ds) \<Rightarrow>
             (let ex = takeWhile isDigit ds
              in if ex = [] then 1
                 else if negative then 1 / 10 ^ digitsValue ex else 10 ^ digitsValue ex))
      else 1)"

definition parseFloat :: "string \<Rightarrow> real option" where
  "parseFloat s =
     (case readSign (dropWhile isSpace s) of
        (negative, body) \<Rightarrow>
          (let whole = takeWhile isDigit body;
               afterWhole = dropWhile isDigit body;
               hasPoint = (afterWhole \<noteq> [] \<and> hd afterWhole = CHR ''.'');
               frac = (if hasPoint then takeWhile isDigit (tl afterWhole) else []);
               afterFrac = (if hasPoint then dropWhile isDigit (tl afterWhole) else afterWhole);
               mantissa = real (digitsValue whole) + real (digitsValue frac) / 10 ^ length frac
           in if whole = [] \<and> frac = [] then None
              else Some ((if negative then - 1 else 1) * mantissa * readExponent afterFrac)))"

subsection \<open>metersToFeet, formatHeight, parseHeight\<close>

definition metersToFeet :: "real \<Rightarrow> real" where
  "metersToFeet meters = meters * METERS_TO_FEET"

text \<open>\<open>Math.round(y)\<close> is \<open>\<lfloor>y + 1/2\<rfloor>\<close>. The feet branch writes the feet, an apostrophe, a
  space, the inches and a double quote. A call without \<open>unit\<close> is a call with \<open>'meters'\<close>.
  The arithmetic is exact here: the rounding of floating point numbers is not modelled.\<close>

definition formatHeight :: "real \<Rightarrow> string \<Rightarrow> string" where
  "formatHeight meters unit =
     (if unit = ''feet'' then
        (let totalFeet = metersToFeet meters;
             feet = \<lfloor>totalFeet\<rfloor>;
             inches = \<lfloor>(totalFeet - of_int feet) * 12 + 1 / 2\<rfloor>
         in showInt feet @ [CHR 0x27, CHR '' ''] @ showInt inches @ [CHR 0x22])
      else toFixed2 meters @ ''m'')"

text \<open>A \<open>NaN\<close> from \<open>parseFloat\<close> stays \<open>NaN\<close> under the division.\<close>

definition parseHeight :: "string \<Rightarrow> string \<Rightarrow> real option" where
  "parseHeight v unit =
     (if unit = ''feet'' then
        (case parseFloat v of None \<Rightarrow> None | Some feet \<Rightarrow> Some (feet / METERS_TO_FEET))
      else
        (case parseFloat v of None \<Rightarrow> None | Some cm \<Rightarrow> Some (cm / 100)))"

subsection \<open>mergeTideData\<close>

text \<open>\<open>Math.floor(date.getTime() / (15 * 60 * 1000)) * (15 * 60 * 1000)\<close>.\<close>

definition bucketStart :: "int \<Rightarrow> int" where
  "bucketStart t = (t div (15 * 60 * 1000)) * (15 * 60 * 1000)"

text \<open>The \<open>forEach\<close> that fills \<open>obsMap\<close>: \<open>Map.set\<close> overwrites an existing key.\<close>

definition obsMapSet :: "rawSample \<Rightarrow> (int \<rightharpoonup> real) \<Rightarrow> (int \<rightharpoonup> real)" where
  "obsMapSet obs obsMap = obsMap(bucketStart (eventDate obs) \<mapsto> val obs)"

definition buildObsMap :: "rawSample list \<Rightarrow> (int \<rightharpoonup> real)" where
  "buildObsMap filteredObservations = fold obsMapSet filteredObservations Map.empty"

text \<open>\<open>obsMap.get(timestamp) || null\<close>: \<open>||\<close> yields its right operand when the left one is
  falsy, and the falsy values here are \<open>undefined\<close> (no entry in the map) and the number 0.\<close>

definition orNull :: "real option \<Rightarrow> real option" where
  "orNull got = (case got of None \<Rightarrow> None | Some v \<Rightarrow> if v = 0 then None else Some v)"

definition mergeRow :: "host \<Rightarrow> (int \<rightharpoonup> real) \<Rightarrow> rawSample \<Rightarrow> tideEntry" where
  "mergeRow h obsMap pred =
     (let date = eventDate pred;
          timeKey = localeTime h date;
          timestamp = bucketStart date;
          obs = orNull (obsMap timestamp)
      in \<lparr>time = date, timeString = timeKey, prediction = val pred, observation = obs\<rparr>)"

definition mergeTideData :: "host \<Rightarrow> rawSample list \<Rightarrow> rawSample list \<Rightarrow> tideEntry list" where
  "mergeTideData h predictions observations =
     (let filteredPredictions = filterQuarterHour h predictions;
          filteredObservations = filterQuarterHour h observations;
          obsMap = buildObsMap filteredObservations
      in map (mergeRow h obsMap) filteredPredictions)"

subsection \<open>findHighLowTides\<close>

fun highLowStep :: "tideEntry \<Rightarrow> tideEntry \<times> tideEntry \<Rightarrow> tideEntry \<times> tideEntry" where
  "highLowStep ent (hi, lo) =
     (let hi' = (if prediction ent > prediction hi then ent else hi);
          lo' = (if prediction ent < prediction lo then ent else lo)
      in (hi', lo'))"

definition findHighLowTides :: "tideEntry list \<Rightarrow> highLow" where
  "findHighLowTides tideData =
     (case tideData of
        [] \<Rightarrow> \<lparr>high = None, low = None\<rparr>
      | first # _ \<Rightarrow>
          (case fold highLowStep tideData (first, first) of
             (hi, lo) \<Rightarrow> \<lparr>high = Some hi, low = Some lo\<rparr>))"

subsection \<open>The current instant\<close>

text \<open>\<open>currentTime || new Date()\<close>: a \<open>Date\<close> argument is truthy and is used; without one
  the clock is read. The clock's reading is the parameter \<open>clock\<close>.\<close>

definition orNow :: "int option \<Rightarrow> int \<Rightarrow> int" where
  "orNow currentTime clock = (case currentTime of Some t \<Rightarrow> t | None \<Rightarrow> clock)"

subsection \<open>getTideTrend\<close>

text \<open>The \<open>for\<close> loop over \<open>i\<close> from \<open>0\<close> while \<open>i < tideData.length - 1\<close>, leaving at
  the first bracketing pair with \<open>before\<close> and \<open>after\<close> set.\<close>

function trendLoop :: "tideEntry list \<Rightarrow> int \<Rightarrow> nat \<Rightarrow> (tideEntry \<times> tideEntry) option" where
  "trendLoop tideData now i =
     (if int i < int (length tideData) - 1 then
        (if time (tideData ! i) \<le> now \<and> time (tideData ! (i + 1)) > now
         then Some (tideData ! i, tideData ! (i + 1))
         else trendLoop tideData now (i + 1))
      else None)"
  by pat_completeness auto
termination
  by (relation "measure (\<lambda>(tideData, now, i). length tideData - i)") auto

declare trendLoop.simps [simp del]

definition getTideTrend :: "int \<Rightarrow> tideEntry list \<Rightarrow> int option \<Rightarrow> string" where
  "getTideTrend clock tideData currentTime =
     (let now = orNow currentTime clock
      in case trendLoop tideData now 0 of
           None \<Rightarrow> ''unknown''
         | Some (before, after) \<Rightarrow>
             if prediction after > prediction before then ''rising'' else ''falling'')"

subsection \<open>findAccessWindows\<close>

text \<open>The body of the \<open>forEach\<close>, on the pair of \<open>accessWindows\<close> and \<open>currentWindow\<close>.
  A window created here receives its \<open>end\<close> and \<open>endTide\<close> in the same step; \<open>h\<close> is
  the local \<open>tide\<close>.\<close>

fun windowStep ::
  "tideEntry \<Rightarrow> accessWindow list \<times> accessWindow option
     \<Rightarrow> accessWindow list \<times> accessWindow option" where
  "windowStep ent (accessWindows, currentWindow) =
     (let h = prediction ent in
      if h \<le> accessThreshold then
        (let opened = (case currentWindow of
                         None \<Rightarrow> \<lparr>start = time ent, startTide = h, entries = [],
                                  end' = time ent, endTide = h\<rparr>
                       | Some w \<Rightarrow> w)
         in (accessWindows,
             Some (opened\<lparr>entries := entries opened @ [ent],
                          end' := time ent, endTide := h\<rparr>)))
      else (case currentWindow of
              Some w \<Rightarrow> (accessWindows @ [w], None)
            | None \<Rightarrow> (accessWindows, None)))"

text \<open>\<open>if (currentWindow) accessWindows.push(currentWindow); return accessWindows\<close>.\<close>

fun closeOpen :: "accessWindow list \<times> accessWindow option \<Rightarrow> accessWindow list" where
  "closeOpen (accessWindows, Some w) = accessWindows @ [w]"
| "closeOpen (accessWindows, None) = accessWindows"

definition findAccessWindows :: "tideEntry list \<Rightarrow> accessWindow list" where
  "findAccessWindows tideData = closeOpen (fold windowStep tideData ([], None))"

subsection \<open>getCurrentAccessStatus\<close>

text \<open>The loop that keeps the closest reading; \<open>minDiff\<close> starts at \<open>Infinity\<close>.\<close>

fun closestStep :: "int \<Rightarrow> tideEntry \<Rightarrow> tideEntry option \<times> enat \<Rightarrow> tideEntry option \<times> enat" where
  "closestStep now ent (closest, minDiff) =
     (let diff = nat \<bar>time ent - now\<bar>
      in if enat diff < minDiff then (Some ent, enat diff) else (closest, minDiff))"

text \<open>\<open>closest.observation || closest.prediction\<close>: the observation when it is truthy,
  that is neither \<open>null\<close> nor 0.\<close>

definition effectiveTide :: "tideEntry \<Rightarrow> real" where
  "effectiveTide closest =
     (case observation closest of
        None \<Rightarrow> prediction closest
      | Some v \<Rightarrow> if v = 0 then prediction closest else v)"

definition getCurrentAccessStatus :: "int \<Rightarrow> tideEntry list \<Rightarrow> int option \<Rightarrow> accessStatus" where
  "getCurrentAccessStatus clock tideData currentTime =
     (let now = orNow currentTime clock
      in case fst (fold (closestStep now) tideData (None, \<infinity>)) of
           None \<Rightarrow> \<lparr>accessible = False, status = ''unknown'', tide = None, entry = None\<rparr>
         | Some closest \<Rightarrow>
             (let h = effectiveTide closest
              in if h \<le> accessThreshold
                 then \<lparr>accessible = True, status = ''accessible'',
                       tide = Some h, entry = Some closest\<rparr>
                 else \<lparr>accessible = False, status = ''not-accessible'',
                       tide = Some h, entry = Some closest\<rparr>))"

subsection \<open>getCountdown\<close>

text \<open>The two \<open>for ... of\<close> loops over the windows, each returning at its first hit.\<close>

fun closingScan :: "int \<Rightarrow> accessWindow list \<Rightarrow> countdown option" where
  "closingScan now [] = None"
| "closingScan now (w # rest) =
     (if now \<ge> start w \<and> now \<le> end' w
      then Some \<lparr>type = ''window-closing'', ms = end' w - now, window = w\<rparr>
      else closingScan now rest)"

fun openingScan :: "int \<Rightarrow> accessWindow list \<Rightarrow> countdown option" where
  "openingScan now [] = None"
| "openingScan now (w # rest) =
     (if start w > now
      then Some \<lparr>type = ''window-opening'', ms = start w - now, window = w\<rparr>
      else openingScan now rest)"

definition getCountdown :: "int \<Rightarrow> tideEntry list \<Rightarrow> int option \<Rightarrow> countdown option" where
  "getCountdown clock tideData currentTime =
     (let now = orNow currentTime clock;
          accessWindows = findAccessWindows tideData
      in case closingScan now accessWindows of
           Some c \<Rightarrow> Some c
         | None \<Rightarrow> openingScan now accessWindows)"

section \<open>The API client\<close>

text \<open>
  The module state of the client is its two caches. Each maps the cache key of a day to the
  data fetched for it and the time of the fetch. \<open>requests\<close> is the record of the calls to
  \<open>fetch\<close> made so far, kept by the model to speak about network traffic.
\<close>

record cacheEntry =
  timestamp :: int
  data :: "rawSample list"

text \<open>What varies in the URL of a request: the time series code and the two ends of the
  day, which the code writes with \<open>toISOString\<close>.\<close>

record request =
  seriesCode :: string
  fromDate :: int
  toDate :: int

record apiState =
  predictionsCache :: "int \<rightharpoonup> cacheEntry"
  observationsCache :: "int \<rightharpoonup> cacheEntry"
  requests :: "request list"

text \<open>What a call of \<open>fetch\<close> followed by \<open>response.json()\<close> comes to: the decoded body of
  a response that is \<open>ok\<close>, a response that is not, or an exception of the transport or the
  decoder.\<close>

datatype response = Body "rawSample list" | NotOk nat string | Thrown string

text \<open>The errors the client throws: its own \<open>API Error\<close> with status and status text, or
  the exception it caught, thrown again.\<close>

datatype fetchError = ApiError nat string | Rethrown string

definition CACHE_DURATION_observations :: int where
  "CACHE_DURATION_observations = 15 * 60 * 1000"

text \<open>\<open>date.toISOString().split('T')[0]\<close> is the UTC calendar date of the instant. Dates and
  UTC day numbers correspond one to one, and the key is the day number here.\<close>

definition getCacheKey :: "int \<Rightarrow> int" where
  "getCacheKey date = date div 86400000"

definition isCacheValid :: "int \<Rightarrow> cacheEntry option \<Rightarrow> int \<Rightarrow> bool" where
  "isCacheValid clock cached maxAge =
     (case cached of
        None \<Rightarrow> False
      | Some c \<Rightarrow> (let age = clock - timestamp c in age < maxAge))"

text \<open>
  \<open>fetchObservations\<close>, run to its end. \<open>clock\<close> is the reading of the clock when the call
  starts (\<open>new Date()\<close>, and \<open>Date.now()\<close> in \<open>isCacheValid\<close>), \<open>clockAfter\<close> its reading
  when the response has arrived, and \<open>net\<close> answers a request. The result is the value the
  promise resolves to, or the error it rejects with, and the state left behind.
\<close>

text \<open>The part behind the cache check: build the URL, \<open>fetch\<close>, and on success store and
  return the data.\<close>

definition fetchFresh ::
  "host \<Rightarrow> (request \<Rightarrow> response) \<Rightarrow> int \<Rightarrow> int \<Rightarrow> apiState
     \<Rightarrow> (fetchError + rawSample list) \<times> apiState" where
  "fetchFresh h net clockAfter date s =
     (let cacheKey = getCacheKey date;
          url = \<lparr>seriesCode = ''wlo'', fromDate = setHours0 h date, toDate = endOfDay h date\<rparr>;
          s1 = s\<lparr>requests := requests s @ [url]\<rparr>
      in case net url of
           NotOk code statusText \<Rightarrow> (Inl (ApiError code statusText), s1)
         | Thrown err \<Rightarrow> (Inl (Rethrown err), s1)
         | Body fetched \<Rightarrow>
             (Inr fetched,
              s1\<lparr>observationsCache :=
                   (observationsCache s1)(cacheKey \<mapsto>
                      \<lparr>timestamp = clockAfter, data = fetched\<rparr>)\<rparr>))"

definition fetchObservations ::
  "host \<Rightarrow> (request \<Rightarrow> response) \<Rightarrow> int \<Rightarrow> int \<Rightarrow> int \<Rightarrow> apiState
     \<Rightarrow> (fetchError + rawSample list) \<times> apiState" where
  "fetchObservations h net clock clockAfter date s =
     (let today = setHours0 h clock;
          dateToCheck = setHours0 h date
      in if dateToCheck > today then (Inr [], s)
         else
           (let cacheKey = getCacheKey date;
                cached = observationsCache s cacheKey
            in case cached of
                 Some c \<Rightarrow>
                   if isCacheValid clock cached CACHE_DURATION_observations
                   then (Inr (data c), s)
                   else fetchFresh h net clockAfter date s
               | None \<Rightarrow> fetchFresh h net clockAfter date s))"

text \<open>A host eight hours behind UTC all year, with days that start and end on the hour, and
  an empty client.\<close>

definition pacificHost :: host where
  "pacificHost =
     \<lparr>tzMinutes = (\<lambda>t. - 480), localeTime = (\<lambda>t. []),
      dayStart = (\<lambda>d. d * 86400000 + 28800000),
      dayEnd = (\<lambda>d. d * 86400000 + 28800000 + 86399999)\<rparr>"

definition emptyClient :: apiState where
  "emptyClient = \<lparr>predictionsCache = Map.empty, observationsCache = Map.empty, requests = []\<rparr>"

section \<open>Maximal runs\<close>

text \<open>
  The window detector in the words of its description: skip the samples above the
  threshold; at a sample at or below it, the longest stretch of such samples from there on
  is one run; go on behind the run.
\<close>

function maximalRuns :: "('a \<Rightarrow> bool) \<Rightarrow> 'a list \<Rightarrow> 'a list list" where
  "maximalRuns P [] = []"
| "maximalRuns P (x # xs) =
     (if P x then (x # takeWhile P xs) # maximalRuns P (dropWhile P xs)
      else maximalRuns P xs)"
  by pat_completeness auto
termination
  by (relation "measure (\<lambda>(P, xs). length xs)")
     (auto simp: length_dropWhile_le less_Suc_eq_le)

definition qualifies :: "tideEntry \<Rightarrow> bool" where
  "qualifies e = (prediction e \<le> 11 / 10)"

text \<open>The window that a non-empty run of samples stands for.\<close>

definition runWindow :: "tideEntry list \<Rightarrow> accessWindow" where
  "runWindow run =
     \<lparr>start = time (hd run), startTide = prediction (hd run), entries = run,
      end' = time (last run), endTide = prediction (last run)\<rparr>"

definition windowsOfRuns :: "tideEntry list \<Rightarrow> accessWindow list" where
  "windowsOfRuns series = map runWindow (maximalRuns qualifies series)"

text \<open>A window that is open, after the samples of \<open>run\<close> have been pushed to it.\<close>

definition extendWindow :: "accessWindow \<Rightarrow> tideEntry list \<Rightarrow> accessWindow" where
  "extendWindow w run =
     (if run = [] then w
      else w\<lparr>entries := entries w @ run, end' := time (last run),
             endTide := prediction (last run)\<rparr>)"

section \<open>Example series\<close>

text \<open>The series of the scenario: samples at 8:00, 8:15, 8:30, 8:45 and 9:00 (counted from
  the start of a day) with predictions 1.3, 1.05, 0.9, 1.0 and 1.2.\<close>

definition scenarioSeries :: "tideEntry list" where
  "scenarioSeries =
     [\<lparr>time = 28800000, timeString = ''08:00 AM'', prediction = 13 / 10, observation = None\<rparr>,
      \<lparr>time = 29700000, timeString = ''08:15 AM'', prediction = 105 / 100, observation = None\<rparr>,
      \<lparr>time = 30600000, timeString = ''08:30 AM'', prediction = 9 / 10, observation = None\<rparr>,
      \<lparr>time = 31500000, timeString = ''08:45 AM'', prediction = 1, observation = None\<rparr>,
      \<lparr>time = 32400000, timeString = ''09:00 AM'', prediction = 12 / 10, observation = None\<rparr>]"

text \<open>A series with two windows: 1.0 at 8:00 and 1.05 at 8:15, 1.3 at 8:30, 0.9 at 8:45.\<close>

definition twoWindowSeries :: "tideEntry list" where
  "twoWindowSeries =
     [\<lparr>time = 28800000, timeString = ''08:00 AM'', prediction = 1, observation = None\<rparr>,
      \<lparr>time = 29700000, timeString = ''08:15 AM'', prediction = 105 / 100, observation = None\<rparr>,
      \<lparr>time = 30600000, timeString = ''08:30 AM'', prediction = 13 / 10, observation = None\<rparr>,
      \<lparr>time = 31500000, timeString = ''08:45 AM'', prediction = 9 / 10, observation = None\<rparr>]"

section \<open>Access windows are the maximal runs\<close>

lemma qualifies_threshold: "qualifies e = (prediction e \<le> accessThreshold)"
  by (simp add: qualifies_def accessThreshold_def)

lemma extendWindow_Nil: "extendWindow w [] = w"
  by (simp add: extendWindow_def)

lemma extendWindow_push:
  "extendWindow (w\<lparr>entries := entries w @ [x], end' := time x, endTide := prediction x\<rparr>) run
     = extendWindow w (x # run)"
  by (simp add: extendWindow_def)

lemma runWindow_Cons:
  "runWindow (x # run) =
     extendWindow \<lparr>start = time x, startTide = prediction x, entries = [x],
                   end' = time x, endTide = prediction x\<rparr> run"
  by (simp add: runWindow_def extendWindow_def)

lemma windowsOfRuns_Nil: "windowsOfRuns [] = []"
  by (simp add: windowsOfRuns_def)

lemma windowsOfRuns_Cons:
  "windowsOfRuns (x # xs) =
     (if qualifies x
      then runWindow (x # takeWhile qualifies xs) # windowsOfRuns (dropWhile qualifies xs)
      else windowsOfRuns xs)"
  by (simp add: windowsOfRuns_def)

lemma windowStep_opens:
  "qualifies x \<Longrightarrow> windowStep x (ws, None) =
     (ws, Some \<lparr>start = time x, startTide = prediction x, entries = [x],
                 end' = time x, endTide = prediction x\<rparr>)"
  by (simp add: qualifies_threshold Let_def)

lemma windowStep_extends:
  "qualifies x \<Longrightarrow> windowStep x (ws, Some w) =
     (ws, Some (w\<lparr>entries := entries w @ [x], end' := time x, endTide := prediction x\<rparr>))"
  by (simp add: qualifies_threshold Let_def)

lemma windowStep_above:
  "\<not> qualifies x \<Longrightarrow>
   windowStep x (ws, cw) = (case cw of Some w \<Rightarrow> (ws @ [w], None) | None \<Rightarrow> (ws, None))"
  by (simp add: qualifies_threshold Let_def)

text \<open>The loop from any state: with no window open it emits the runs of what is left;
  with a window open, that window first takes the qualifying samples in front.\<close>

lemma fold_windowStep:
  "closeOpen (fold windowStep xs (ws, None)) = ws @ windowsOfRuns xs \<and>
   closeOpen (fold windowStep xs (ws, Some w)) =
     ws @ extendWindow w (takeWhile qualifies xs) # windowsOfRuns (dropWhile qualifies xs)"
proof (induction xs arbitrary: ws w)
  case Nil
  show ?case by (simp add: windowsOfRuns_Nil extendWindow_Nil)
next
  case (Cons x xs)
  show ?case
  proof (cases "qualifies x")
    case True
    then show ?thesis
      using Cons.IH
      by (simp add: windowStep_opens windowStep_extends windowsOfRuns_Cons
          runWindow_Cons extendWindow_push del: windowStep.simps)
  next
    case False
    then show ?thesis
      using Cons.IH
      by (simp add: windowStep_above windowsOfRuns_Cons extendWindow_Nil del: windowStep.simps)
  qed
qed

lemma findAccessWindows_runs: "findAccessWindows series = windowsOfRuns series"
  using fold_windowStep [of series "[]"] by (simp add: findAccessWindows_def)

text \<open>
  Claim C1. \<open>findAccessWindows\<close> returns exactly the maximal runs of consecutive samples
  whose prediction is at or below 1.1, each as the window from its first to its last sample:
  a qualifying sample opens or extends the run, the first sample above 1.1 ends it, and a
  run that reaches the end of the series is emitted as well. A series of a single sample
  gives one window from that sample to itself when the sample qualifies. The series of the
  scenario gives exactly one window, from 8:15 to 8:45, holding the three samples between.
\<close>

theorem findAccessWindows_maximal_runs:
  "findAccessWindows series = map runWindow (maximalRuns (\<lambda>e. prediction e \<le> 11 / 10) series)
   \<and> findAccessWindows [e] =
       (if prediction e \<le> 11 / 10
        then [\<lparr>start = time e, startTide = prediction e, entries = [e],
               end' = time e, endTide = prediction e\<rparr>]
        else [])
   \<and> findAccessWindows scenarioSeries =
       [\<lparr>start = 29700000, startTide = 105 / 100,
         entries =
           [\<lparr>time = 29700000, timeString = ''08:15 AM'', prediction = 105 / 100,
              observation = None\<rparr>,
            \<lparr>time = 30600000, timeString = ''08:30 AM'', prediction = 9 / 10,
              observation = None\<rparr>,
            \<lparr>time = 31500000, timeString = ''08:45 AM'', prediction = 1,
              observation = None\<rparr>],
         end' = 31500000, endTide = 1\<rparr>]"
proof -
  have runs: "findAccessWindows xs = map runWindow (maximalRuns (\<lambda>e. prediction e \<le> 11 / 10) xs)"
    for xs
    using findAccessWindows_runs [of xs]
    by (simp add: windowsOfRuns_def qualifies_def [abs_def])
  have single: "findAccessWindows [e] =
       (if prediction e \<le> 11 / 10
        then [\<lparr>start = time e, startTide = prediction e, entries = [e],
               end' = time e, endTide = prediction e\<rparr>]
        else [])"
    by (simp add: findAccessWindows_def accessThreshold_def Let_def)
  have scenario: "findAccessWindows scenarioSeries =
       [\<lparr>start = 29700000, startTide = 105 / 100,
         entries =
           [\<lparr>time = 29700000, timeString = ''08:15 AM'', prediction = 105 / 100,
              observation = None\<rparr>,
            \<lparr>time = 30600000, timeString = ''08:30 AM'', prediction = 9 / 10,
              observation = None\<rparr>,
            \<lparr>time = 31500000, timeString = ''08:45 AM'', prediction = 1,
              observation = None\<rparr>],
         end' = 31500000, endTide = 1\<rparr>]"
    by (simp add: findAccessWindows_def scenarioSeries_def accessThreshold_def Let_def)
  from runs single scenario show ?thesis by blast
qed

section \<open>Shape and order of the windows\<close>

lemma maximalRuns_subset: "r \<in> set (maximalRuns P xs) \<Longrightarrow> set r \<subseteq> set xs"
proof (induction P xs rule: maximalRuns.induct)
  case (1 P)
  then show ?case by simp
next
  case (2 P x xs)
  show ?case
  proof (cases "P x")
    case True
    with "2.prems" have "r = x # takeWhile P xs \<or> r \<in> set (maximalRuns P (dropWhile P xs))"
      by simp
    then show ?thesis
    proof
      assume "r = x # takeWhile P xs"
      then show ?thesis using set_takeWhileD by fastforce
    next
      assume "r \<in> set (maximalRuns P (dropWhile P xs))"
      with "2.IH"(1) True have "set r \<subseteq> set (dropWhile P xs)" by simp
      then show ?thesis using set_dropWhileD by fastforce
    qed
  next
    case False
    with "2.prems" "2.IH"(2) show ?thesis by auto
  qed
qed

lemma maximalRuns_decomp:
  "r \<in> set (maximalRuns P xs) \<Longrightarrow>
   \<exists>pre post. xs = pre @ r @ post \<and> r \<noteq> [] \<and> (\<forall>x\<in>set r. P x) \<and>
     (pre \<noteq> [] \<longrightarrow> \<not> P (last pre)) \<and> (post \<noteq> [] \<longrightarrow> \<not> P (hd post))"
proof (induction P xs rule: maximalRuns.induct)
  case (1 P)
  then show ?case by simp
next
  case (2 P x xs)
  show ?case
  proof (cases "P x")
    case True
    with "2.prems" have "r = x # takeWhile P xs \<or> r \<in> set (maximalRuns P (dropWhile P xs))"
      by simp
    then show ?thesis
    proof
      assume r: "r = x # takeWhile P xs"
      have "x # xs = [] @ r @ dropWhile P xs" using r by simp
      moreover have "\<forall>y\<in>set r. P y" using r True by (auto dest: set_takeWhileD)
      moreover have "dropWhile P xs \<noteq> [] \<longrightarrow> \<not> P (hd (dropWhile P xs))"
        using hd_dropWhile by blast
      moreover have "r \<noteq> []" using r by simp
      ultimately show ?thesis by blast
    next
      assume "r \<in> set (maximalRuns P (dropWhile P xs))"
      with "2.IH"(1) True obtain pre post where d: "dropWhile P xs = pre @ r @ post" "r \<noteq> []"
        "\<forall>x\<in>set r. P x" "pre \<noteq> [] \<longrightarrow> \<not> P (last pre)" "post \<noteq> [] \<longrightarrow> \<not> P (hd post)"
        by blast
      have "pre \<noteq> []"
      proof
        assume "pre = []"
        with d have "dropWhile P xs \<noteq> []" "hd (dropWhile P xs) = hd r" by auto
        moreover have "P (hd r)" using d by simp
        ultimately show False using hd_dropWhile by metis
      qed
      moreover have "x # xs = (x # takeWhile P xs @ pre) @ r @ post"
        using d(1) by (metis append_Cons append_assoc takeWhile_dropWhile_id)
      ultimately show ?thesis using d by (metis last_appendR last_ConsR Nil_is_append_conv)
    qed
  next
    case False
    with "2.prems" "2.IH"(2) obtain pre post where d: "xs = pre @ r @ post" "r \<noteq> []"
        "\<forall>x\<in>set r. P x" "pre \<noteq> [] \<longrightarrow> \<not> P (last pre)" "post \<noteq> [] \<longrightarrow> \<not> P (hd post)"
      by auto
    have "x # xs = (x # pre) @ r @ post" using d by simp
    moreover have "\<not> P (last (x # pre))" using d False by simp
    ultimately show ?thesis using d by blast
  qed
qed

lemma maximalRuns_sorted_wrt:
  "sorted_wrt R xs \<Longrightarrow>
   sorted_wrt (\<lambda>r s. \<forall>a\<in>set r. \<forall>b\<in>set s. R a b) (maximalRuns P xs)"
proof (induction P xs rule: maximalRuns.induct)
  case (1 P)
  then show ?case by simp
next
  case (2 P x xs)
  show ?case
  proof (cases "P x")
    case True
    have split: "xs = takeWhile P xs @ dropWhile P xs" by simp
    from "2.prems" have xR: "\<forall>b\<in>set xs. R x b" and sxs: "sorted_wrt R xs" by auto
    from sxs split have cross: "\<forall>a\<in>set (takeWhile P xs). \<forall>b\<in>set (dropWhile P xs). R a b"
      and sdw: "sorted_wrt R (dropWhile P xs)"
      by (metis sorted_wrt_append)+
    have rest: "sorted_wrt (\<lambda>r s. \<forall>a\<in>set r. \<forall>b\<in>set s. R a b) (maximalRuns P (dropWhile P xs))"
      using "2.IH"(1) True sdw by simp
    have "\<forall>s\<in>set (maximalRuns P (dropWhile P xs)). \<forall>a\<in>set (x # takeWhile P xs). \<forall>b\<in>set s. R a b"
    proof (intro ballI)
      fix s a b
      assume s: "s \<in> set (maximalRuns P (dropWhile P xs))" and a: "a \<in> set (x # takeWhile P xs)"
        and b: "b \<in> set s"
      from s b have bd: "b \<in> set (dropWhile P xs)" using maximalRuns_subset by blast
      then have "b \<in> set xs" by (rule set_dropWhileD)
      with a bd xR cross show "R a b" by auto
    qed
    with rest True show ?thesis by simp
  next
    case False
    with "2.prems" "2.IH"(2) show ?thesis by simp
  qed
qed


lemma maximalRuns_nonempty: "r \<in> set (maximalRuns P xs) \<Longrightarrow> r \<noteq> []"
  using maximalRuns_decomp by blast

lemma sorted_hd_le_last:
  assumes "sorted (map f r)" and "r \<noteq> []"
  shows "f (hd r) \<le> (f (last r) :: int)"
proof (cases r)
  case Nil
  with assms show ?thesis by simp
next
  case (Cons a r')
  show ?thesis
  proof (cases "r' = []")
    case True
    with Cons show ?thesis by simp
  next
    case False
    then have "last r \<in> set r'" using Cons by simp
    with assms(1) Cons show ?thesis by auto
  qed
qed

lemma runs_time_ordered:
  assumes "sorted (map time series)"
  shows "sorted_wrt (\<lambda>r s. \<forall>a\<in>set r. \<forall>b\<in>set s. time a \<le> time b) (maximalRuns P series)"
proof -
  from assms have "sorted_wrt (\<lambda>a b. time a \<le> time b) series"
    by (simp add: sorted_wrt_map)
  then show ?thesis by (rule maximalRuns_sorted_wrt)
qed

lemma runs_time_separated:
  assumes "sorted (map time series)" and "distinct (map time series)"
  shows "sorted_wrt (\<lambda>r s. \<forall>a\<in>set r. \<forall>b\<in>set s. time a < time b) (maximalRuns P series)"
proof -
  from assms have "sorted_wrt (<) (map time series)"
    by (simp add: strict_sorted_iff)
  then have "sorted_wrt (\<lambda>a b. time a < time b) series"
    by (simp add: sorted_wrt_map)
  then show ?thesis by (rule maximalRuns_sorted_wrt)
qed

lemma findAccessWindows_nth:
  assumes "i < length (findAccessWindows series)"
  shows "i < length (maximalRuns qualifies series) \<and>
         findAccessWindows series ! i = runWindow (maximalRuns qualifies series ! i)"
  using assms by (simp add: findAccessWindows_runs windowsOfRuns_def)

lemma findAccessWindows_sorted_start:
  assumes "sorted (map time series)"
  shows "sorted (map start (findAccessWindows series))"
proof -
  let ?runs = "maximalRuns qualifies series"
  have "sorted_wrt (\<lambda>r s. \<forall>a\<in>set r. \<forall>b\<in>set s. time a \<le> time b) ?runs"
    using assms by (rule runs_time_ordered)
  then have "sorted_wrt (\<lambda>r s. time (hd r) \<le> time (hd s)) ?runs"
  proof (rule sorted_wrt_mono_rel [rotated])
    fix r s
    assume "r \<in> set ?runs" "s \<in> set ?runs" "\<forall>a\<in>set r. \<forall>b\<in>set s. time a \<le> time b"
    moreover from this have "hd r \<in> set r" "hd s \<in> set s"
      using maximalRuns_nonempty by (metis hd_in_set)+
    ultimately show "time (hd r) \<le> time (hd s)" by blast
  qed
  then have "sorted (map (\<lambda>r. time (hd r)) ?runs)"
    by (simp add: sorted_wrt_map)
  moreover have "map start (findAccessWindows series) = map (\<lambda>r. time (hd r)) ?runs"
    by (simp add: findAccessWindows_runs windowsOfRuns_def runWindow_def)
  ultimately show ?thesis by simp
qed

text \<open>
  Claim C7. For a series ordered by time, every window of \<open>findAccessWindows\<close> has
  \<open>start \<le> end\<close>; every sample in its entries has prediction at most 1.1; its entries
  lie in the series as one stretch, and the sample just before the stretch and the sample
  just behind it, where there is one, have prediction above 1.1. The windows come in
  chronological order: an earlier window ends no later than a later one starts, and strictly
  before it when no two samples of the series share an instant, so that the windows do not
  overlap.
\<close>

theorem findAccessWindows_invariants:
  assumes "sorted (map time series)"
  shows "(\<forall>w\<in>set (findAccessWindows series).
            start w \<le> end' w \<and>
            (\<forall>e\<in>set (entries w). prediction e \<le> 11 / 10) \<and>
            (\<exists>pre post. series = pre @ entries w @ post \<and>
               (pre \<noteq> [] \<longrightarrow> prediction (last pre) > 11 / 10) \<and>
               (post \<noteq> [] \<longrightarrow> prediction (hd post) > 11 / 10)))
         \<and> (\<forall>i j. i < j \<and> j < length (findAccessWindows series) \<longrightarrow>
               end' (findAccessWindows series ! i) \<le> start (findAccessWindows series ! j) \<and>
               (distinct (map time series) \<longrightarrow>
                  end' (findAccessWindows series ! i) < start (findAccessWindows series ! j)))"
proof -
  let ?runs = "maximalRuns qualifies series"
  have each: "start w \<le> end' w \<and>
            (\<forall>e\<in>set (entries w). prediction e \<le> 11 / 10) \<and>
            (\<exists>pre post. series = pre @ entries w @ post \<and>
               (pre \<noteq> [] \<longrightarrow> prediction (last pre) > 11 / 10) \<and>
               (post \<noteq> [] \<longrightarrow> prediction (hd post) > 11 / 10))"
    if "w \<in> set (findAccessWindows series)" for w
  proof -
    from that obtain r where r: "r \<in> set ?runs" and w: "w = runWindow r"
      by (auto simp: findAccessWindows_runs windowsOfRuns_def)
    from maximalRuns_decomp [OF r] obtain pre post where
      d: "series = pre @ r @ post" "r \<noteq> []" "\<forall>x\<in>set r. qualifies x"
         "pre \<noteq> [] \<longrightarrow> \<not> qualifies (last pre)" "post \<noteq> [] \<longrightarrow> \<not> qualifies (hd post)"
      by blast
    from assms d(1) have "sorted (map time r)" by (simp add: sorted_append)
    then have "time (hd r) \<le> time (last r)" using d(2) by (rule sorted_hd_le_last)
    then have bounds: "start w \<le> end' w" by (simp add: w runWindow_def)
    have inside: "\<forall>e\<in>set (entries w). prediction e \<le> 11 / 10"
      using d(3) by (simp add: w runWindow_def qualifies_def)
    have "series = pre @ entries w @ post" using d(1) by (simp add: w runWindow_def)
    moreover have "pre \<noteq> [] \<longrightarrow> prediction (last pre) > 11 / 10"
      using d(4) by (simp add: qualifies_def not_le)
    moreover have "post \<noteq> [] \<longrightarrow> prediction (hd post) > 11 / 10"
      using d(5) by (simp add: qualifies_def not_le)
    ultimately have "\<exists>pre post. series = pre @ entries w @ post \<and>
               (pre \<noteq> [] \<longrightarrow> prediction (last pre) > 11 / 10) \<and>
               (post \<noteq> [] \<longrightarrow> prediction (hd post) > 11 / 10)"
      by blast
    with bounds inside show ?thesis by blast
  qed
  have pairs: "end' (findAccessWindows series ! i) \<le> start (findAccessWindows series ! j) \<and>
               (distinct (map time series) \<longrightarrow>
                  end' (findAccessWindows series ! i) < start (findAccessWindows series ! j))"
    if ij: "i < j \<and> j < length (findAccessWindows series)" for i j
  proof -
    from ij have j: "j < length ?runs" "findAccessWindows series ! j = runWindow (?runs ! j)"
      using findAccessWindows_nth by blast+
    from ij have i: "i < length ?runs" "findAccessWindows series ! i = runWindow (?runs ! i)"
      using findAccessWindows_nth [of i series] by simp_all
    have ne: "?runs ! i \<noteq> []" "?runs ! j \<noteq> []"
      using i(1) j(1) maximalRuns_nonempty nth_mem by blast+
    then have mem: "last (?runs ! i) \<in> set (?runs ! i)" "hd (?runs ! j) \<in> set (?runs ! j)"
      by simp_all
    have "\<forall>a\<in>set (?runs ! i). \<forall>b\<in>set (?runs ! j). time a \<le> time b"
      using sorted_wrt_nth_less [OF runs_time_ordered [OF assms]] ij j(1) by blast
    with mem have "time (last (?runs ! i)) \<le> time (hd (?runs ! j))" by blast
    then have weak: "end' (findAccessWindows series ! i) \<le> start (findAccessWindows series ! j)"
      by (simp add: i(2) j(2) runWindow_def)
    have "end' (findAccessWindows series ! i) < start (findAccessWindows series ! j)"
      if "distinct (map time series)"
    proof -
      have "\<forall>a\<in>set (?runs ! i). \<forall>b\<in>set (?runs ! j). time a < time b"
        using sorted_wrt_nth_less [OF runs_time_separated [OF assms that]] ij j(1) by blast
      with mem have "time (last (?runs ! i)) < time (hd (?runs ! j))" by blast
      then show ?thesis by (simp add: i(2) j(2) runWindow_def)
    qed
    with weak show ?thesis by blast
  qed
  from each pairs show ?thesis by blast
qed


theorem findAccessWindows_invariants_witness:
  "sorted (map time twoWindowSeries) \<and> distinct (map time twoWindowSeries)
   \<and> length (findAccessWindows twoWindowSeries) = 2
   \<and> start (findAccessWindows twoWindowSeries ! 0) \<le> end' (findAccessWindows twoWindowSeries ! 0)
   \<and> end' (findAccessWindows twoWindowSeries ! 0) < start (findAccessWindows twoWindowSeries ! 1)"
proof -
  have s: "sorted (map time twoWindowSeries)" and d: "distinct (map time twoWindowSeries)"
    by (simp_all add: twoWindowSeries_def)
  have n: "length (findAccessWindows twoWindowSeries) = 2"
    by (simp add: twoWindowSeries_def findAccessWindows_def accessThreshold_def Let_def)
  have m: "findAccessWindows twoWindowSeries ! 0 \<in> set (findAccessWindows twoWindowSeries)"
    using n by simp
  from findAccessWindows_invariants [OF s] m n d show ?thesis
    using s by (metis one_less_numeral_iff semiring_norm(76) zero_less_one)
qed

section \<open>The countdown\<close>

lemma closingScan_hit:
  "\<exists>w\<in>set ws. start w \<le> now \<and> now \<le> end' w \<Longrightarrow>
   \<exists>i<length ws. start (ws ! i) \<le> now \<and> now \<le> end' (ws ! i) \<and>
     (\<forall>j<i. \<not> (start (ws ! j) \<le> now \<and> now \<le> end' (ws ! j))) \<and>
     closingScan now ws =
       Some \<lparr>type = ''window-closing'', ms = end' (ws ! i) - now, window = ws ! i\<rparr>"
proof (induction ws)
  case Nil
  then show ?case by simp
next
  case (Cons a ws)
  show ?case
  proof (cases "start a \<le> now \<and> now \<le> end' a")
    case True
    then have "start ((a # ws) ! 0) \<le> now \<and> now \<le> end' ((a # ws) ! 0) \<and>
        (\<forall>j<0. \<not> (start ((a # ws) ! j) \<le> now \<and> now \<le> end' ((a # ws) ! j))) \<and>
        closingScan now (a # ws) =
          Some \<lparr>type = ''window-closing'', ms = end' ((a # ws) ! 0) - now, window = (a # ws) ! 0\<rparr>"
      by simp
    then show ?thesis by blast
  next
    case False
    with Cons.prems have "\<exists>w\<in>set ws. start w \<le> now \<and> now \<le> end' w" by auto
    from Cons.IH [OF this] obtain i where i: "i < length ws"
      "start (ws ! i) \<le> now \<and> now \<le> end' (ws ! i)"
      "\<forall>j<i. \<not> (start (ws ! j) \<le> now \<and> now \<le> end' (ws ! j))"
      "closingScan now ws =
         Some \<lparr>type = ''window-closing'', ms = end' (ws ! i) - now, window = ws ! i\<rparr>"
      by blast
    have "\<forall>j<Suc i. \<not> (start ((a # ws) ! j) \<le> now \<and> now \<le> end' ((a # ws) ! j))"
      using i(3) False by (auto simp: less_Suc_eq_0_disj)
    moreover have "closingScan now (a # ws) =
        Some \<lparr>type = ''window-closing'', ms = end' ((a # ws) ! Suc i) - now,
              window = (a # ws) ! Suc i\<rparr>"
      using i(4) False by auto
    moreover have "Suc i < length (a # ws)" using i(1) by simp
    moreover have "start ((a # ws) ! Suc i) \<le> now \<and> now \<le> end' ((a # ws) ! Suc i)"
      using i(2) by simp
    ultimately show ?thesis by blast
  qed
qed

lemma closingScan_miss:
  "\<not> (\<exists>w\<in>set ws. start w \<le> now \<and> now \<le> end' w) \<Longrightarrow> closingScan now ws = None"
  by (induction ws) auto

lemma openingScan_hit:
  "\<exists>w\<in>set ws. now < start w \<Longrightarrow>
   \<exists>i<length ws. now < start (ws ! i) \<and> (\<forall>j<i. \<not> now < start (ws ! j)) \<and>
     openingScan now ws =
       Some \<lparr>type = ''window-opening'', ms = start (ws ! i) - now, window = ws ! i\<rparr>"
proof (induction ws)
  case Nil
  then show ?case by simp
next
  case (Cons a ws)
  show ?case
  proof (cases "now < start a")
    case True
    then have "now < start ((a # ws) ! 0) \<and> (\<forall>j<0. \<not> now < start ((a # ws) ! j)) \<and>
        openingScan now (a # ws) =
          Some \<lparr>type = ''window-opening'', ms = start ((a # ws) ! 0) - now, window = (a # ws) ! 0\<rparr>"
      by simp
    then show ?thesis by blast
  next
    case False
    with Cons.prems have "\<exists>w\<in>set ws. now < start w" by auto
    from Cons.IH [OF this] obtain i where i: "i < length ws" "now < start (ws ! i)"
      "\<forall>j<i. \<not> now < start (ws ! j)"
      "openingScan now ws =
         Some \<lparr>type = ''window-opening'', ms = start (ws ! i) - now, window = ws ! i\<rparr>"
      by blast
    have "\<forall>j<Suc i. \<not> now < start ((a # ws) ! j)"
      using i(3) False by (auto simp: less_Suc_eq_0_disj)
    moreover have "openingScan now (a # ws) =
        Some \<lparr>type = ''window-opening'', ms = start ((a # ws) ! Suc i) - now,
              window = (a # ws) ! Suc i\<rparr>"
      using i(4) False by simp
    moreover have "Suc i < length (a # ws)" using i(1) by simp
    moreover have "now < start ((a # ws) ! Suc i)" using i(2) by simp
    ultimately show ?thesis by blast
  qed
qed

lemma openingScan_miss:
  "\<not> (\<exists>w\<in>set ws. now < start w) \<Longrightarrow> openingScan now ws = None"
  by (induction ws) auto

text \<open>In a list sorted by start, the first window that starts after \<open>now\<close> is the earliest.\<close>

lemma first_later_is_earliest:
  assumes "sorted (map start ws)" and "i < length ws" and "\<forall>j<i. \<not> now < start (ws ! j)"
    and "w' \<in> set ws" and "now < start w'"
  shows "start (ws ! i) \<le> start w'"
proof -
  from assms(4) obtain k where k: "k < length ws" "w' = ws ! k"
    by (auto simp: in_set_conv_nth)
  with assms(3,5) have "i \<le> k" by (meson not_le_imp_less)
  with assms(1) k(1) have "map start ws ! i \<le> map start ws ! k"
    by (simp add: sorted_iff_nth_mono del: nth_map)
  with k assms(2) show ?thesis by simp
qed

text \<open>
  Claim C2. Let \<open>ws\<close> be the windows of the series and \<open>now\<close> the instant asked for. If
  \<open>now\<close> lies in \<open>[start, end]\<close> of some window, both ends included, \<open>getCountdown\<close>
  returns \<open>window-closing\<close> with \<open>ms = end - now\<close> for the first window of the list that
  holds \<open>now\<close>. Otherwise, if some window starts after \<open>now\<close>, it returns
  \<open>window-opening\<close> with \<open>ms = start - now\<close> for the first window of the list that starts
  after \<open>now\<close>, and for a series ordered by time no window that starts after \<open>now\<close>
  starts earlier than that one. Otherwise it returns \<open>null\<close>, as it does for the empty
  series.
\<close>

theorem getCountdown_cases:
  "(let now = orNow currentTime clock;
        ws = findAccessWindows tideData;
        result = getCountdown clock tideData currentTime
    in ((\<exists>w\<in>set ws. start w \<le> now \<and> now \<le> end' w) \<longrightarrow>
          (\<exists>i<length ws. start (ws ! i) \<le> now \<and> now \<le> end' (ws ! i) \<and>
             (\<forall>j<i. \<not> (start (ws ! j) \<le> now \<and> now \<le> end' (ws ! j))) \<and>
             result = Some \<lparr>type = ''window-closing'', ms = end' (ws ! i) - now,
                            window = ws ! i\<rparr>))
     \<and> (\<not> (\<exists>w\<in>set ws. start w \<le> now \<and> now \<le> end' w) \<and> (\<exists>w\<in>set ws. now < start w) \<longrightarrow>
          (\<exists>i<length ws. now < start (ws ! i) \<and> (\<forall>j<i. \<not> now < start (ws ! j)) \<and>
             (sorted (map time tideData) \<longrightarrow>
                (\<forall>w'\<in>set ws. now < start w' \<longrightarrow> start (ws ! i) \<le> start w')) \<and>
             result = Some \<lparr>type = ''window-opening'', ms = start (ws ! i) - now,
                            window = ws ! i\<rparr>))
     \<and> (\<not> (\<exists>w\<in>set ws. start w \<le> now \<and> now \<le> end' w) \<and> \<not> (\<exists>w\<in>set ws. now < start w) \<longrightarrow>
          result = None)
     \<and> (tideData = [] \<longrightarrow> result = None))"
proof -
  define now where "now = orNow currentTime clock"
  define ws where "ws = findAccessWindows tideData"
  define result where "result = getCountdown clock tideData currentTime"
  have res: "result = (case closingScan now ws of Some c \<Rightarrow> Some c | None \<Rightarrow> openingScan now ws)"
    unfolding result_def getCountdown_def now_def ws_def Let_def by (rule refl)
  have closing: "\<exists>i<length ws. start (ws ! i) \<le> now \<and> now \<le> end' (ws ! i) \<and>
             (\<forall>j<i. \<not> (start (ws ! j) \<le> now \<and> now \<le> end' (ws ! j))) \<and>
             result = Some \<lparr>type = ''window-closing'', ms = end' (ws ! i) - now,
                            window = ws ! i\<rparr>"
    if "\<exists>w\<in>set ws. start w \<le> now \<and> now \<le> end' w"
    using closingScan_hit [OF that] res by auto
  have later: "\<exists>i<length ws. now < start (ws ! i) \<and> (\<forall>j<i. \<not> now < start (ws ! j)) \<and>
             (sorted (map time tideData) \<longrightarrow>
                (\<forall>w'\<in>set ws. now < start w' \<longrightarrow> start (ws ! i) \<le> start w')) \<and>
             result = Some \<lparr>type = ''window-opening'', ms = start (ws ! i) - now,
                            window = ws ! i\<rparr>"
    if "\<not> (\<exists>w\<in>set ws. start w \<le> now \<and> now \<le> end' w)" "\<exists>w\<in>set ws. now < start w"
  proof -
    from openingScan_hit [OF that(2)] obtain i where i: "i < length ws" "now < start (ws ! i)"
      "\<forall>j<i. \<not> now < start (ws ! j)"
      "openingScan now ws =
         Some \<lparr>type = ''window-opening'', ms = start (ws ! i) - now, window = ws ! i\<rparr>"
      by blast
    have "result = Some \<lparr>type = ''window-opening'', ms = start (ws ! i) - now, window = ws ! i\<rparr>"
      using i(4) closingScan_miss [OF that(1)] res by simp
    moreover have "\<forall>w'\<in>set ws. now < start w' \<longrightarrow> start (ws ! i) \<le> start w'"
      if "sorted (map time tideData)"
    proof -
      from that have "sorted (map start ws)"
        unfolding ws_def by (rule findAccessWindows_sorted_start)
      then show ?thesis using first_later_is_earliest [OF _ i(1) i(3)] by blast
    qed
    ultimately show ?thesis using i(1,2,3) by blast
  qed
  have neither: "result = None"
    if "\<not> (\<exists>w\<in>set ws. start w \<le> now \<and> now \<le> end' w)" "\<not> (\<exists>w\<in>set ws. now < start w)"
    using openingScan_miss [OF that(2)] closingScan_miss [OF that(1)] res by simp
  have empty: "result = None" if "tideData = []"
    using that res by (simp add: ws_def findAccessWindows_def)
  from closing later neither empty show ?thesis
    unfolding now_def [symmetric] ws_def [symmetric] result_def [symmetric] Let_def
    by blast
qed

theorem getCountdown_cases_witness:
  "sorted (map time scenarioSeries)
   \<and> getCountdown 0 scenarioSeries (Some 30000000) =
       Some \<lparr>type = ''window-closing'', ms = 1500000, window = hd (findAccessWindows scenarioSeries)\<rparr>
   \<and> getCountdown 0 scenarioSeries (Some 25200000) =
       Some \<lparr>type = ''window-opening'', ms = 4500000, window = hd (findAccessWindows scenarioSeries)\<rparr>
   \<and> getCountdown 0 scenarioSeries (Some 32400000) = None"
proof -
  have s: "sorted (map time scenarioSeries)" by (simp add: scenarioSeries_def)
  have ws: "findAccessWindows scenarioSeries =
       [\<lparr>start = 29700000, startTide = 105 / 100,
         entries =
           [\<lparr>time = 29700000, timeString = ''08:15 AM'', prediction = 105 / 100,
              observation = None\<rparr>,
            \<lparr>time = 30600000, timeString = ''08:30 AM'', prediction = 9 / 10,
              observation = None\<rparr>,
            \<lparr>time = 31500000, timeString = ''08:45 AM'', prediction = 1,
              observation = None\<rparr>],
         end' = 31500000, endTide = 1\<rparr>]"
    by (simp add: findAccessWindows_def scenarioSeries_def accessThreshold_def Let_def)
  have a: "getCountdown 0 scenarioSeries (Some 30000000) =
       Some \<lparr>type = ''window-closing'', ms = 1500000, window = hd (findAccessWindows scenarioSeries)\<rparr>"
    using getCountdown_cases [of "Some 30000000" 0 scenarioSeries] by (simp add: ws orNow_def Let_def)
  have b: "getCountdown 0 scenarioSeries (Some 25200000) =
       Some \<lparr>type = ''window-opening'', ms = 4500000, window = hd (findAccessWindows scenarioSeries)\<rparr>"
    using getCountdown_cases [of "Some 25200000" 0 scenarioSeries] by (simp add: ws orNow_def Let_def)
  have c: "getCountdown 0 scenarioSeries (Some 32400000) = None"
    using getCountdown_cases [of "Some 32400000" 0 scenarioSeries] by (simp add: ws orNow_def Let_def)
  from s a b c show ?thesis by blast
qed

section \<open>The trend\<close>

lemma trendLoop_unfold:
  "trendLoop tideData now i =
     (if Suc i < length tideData then
        (if time (tideData ! i) \<le> now \<and> now < time (tideData ! Suc i)
         then Some (tideData ! i, tideData ! Suc i)
         else trendLoop tideData now (Suc i))
      else None)"
  by (subst trendLoop.simps) auto

lemma trendLoop_first:
  assumes "k \<le> i" and "Suc i < length tideData"
    and "time (tideData ! i) \<le> now \<and> now < time (tideData ! Suc i)"
    and "\<forall>j. k \<le> j \<and> j < i \<longrightarrow> \<not> (time (tideData ! j) \<le> now \<and> now < time (tideData ! Suc j))"
  shows "trendLoop tideData now k = Some (tideData ! i, tideData ! Suc i)"
  using assms
proof (induction "i - k" arbitrary: k)
  case 0
  then have "k = i" by simp
  with "0.prems" show ?case by (subst trendLoop_unfold) simp
next
  case (Suc d)
  then have lt: "k < i" by simp
  with Suc.prems have no: "\<not> (time (tideData ! k) \<le> now \<and> now < time (tideData ! Suc k))"
    by blast
  have "trendLoop tideData now (Suc k) = Some (tideData ! i, tideData ! Suc i)"
  proof (rule Suc.hyps(1))
    show "d = i - Suc k" using Suc.hyps(2) by simp
    show "Suc k \<le> i" using lt by simp
    show "Suc i < length tideData" by (rule Suc.prems(2))
    show "time (tideData ! i) \<le> now \<and> now < time (tideData ! Suc i)" by (rule Suc.prems(3))
    show "\<forall>j. Suc k \<le> j \<and> j < i \<longrightarrow>
            \<not> (time (tideData ! j) \<le> now \<and> now < time (tideData ! Suc j))"
      using Suc.prems(4) by auto
  qed
  moreover have "Suc k < length tideData" using lt Suc.prems(2) by simp
  ultimately show ?case using no by (subst trendLoop_unfold) auto
qed

lemma trendLoop_none:
  assumes "\<forall>i. k \<le> i \<and> Suc i < length tideData \<longrightarrow>
             \<not> (time (tideData ! i) \<le> now \<and> now < time (tideData ! Suc i))"
  shows "trendLoop tideData now k = None"
  using assms
proof (induction "length tideData - k" arbitrary: k)
  case 0
  then show ?case by (subst trendLoop_unfold) simp
next
  case (Suc d)
  show ?case
  proof (cases "Suc k < length tideData")
    case True
    have "trendLoop tideData now (Suc k) = None"
    proof (rule Suc.hyps(1))
      show "d = length tideData - Suc k" using Suc.hyps(2) by simp
      show "\<forall>i. Suc k \<le> i \<and> Suc i < length tideData \<longrightarrow>
             \<not> (time (tideData ! i) \<le> now \<and> now < time (tideData ! Suc i))"
        using Suc.prems by auto
    qed
    moreover have "\<not> (time (tideData ! k) \<le> now \<and> now < time (tideData ! Suc k))"
      using Suc.prems True by blast
    ultimately show ?thesis by (subst trendLoop_unfold) auto
  next
    case False
    then show ?thesis by (subst trendLoop_unfold) simp
  qed
qed

text \<open>In a series ordered by time at most one pair of neighbours brackets an instant.\<close>

lemma bracket_unique:
  assumes "sorted (map time tideData)" and "Suc i < length tideData"
    and "time (tideData ! i) \<le> now" and "j < i"
  shows "\<not> now < time (tideData ! Suc j)"
proof -
  from assms(1,2,4) have "map time tideData ! Suc j \<le> map time tideData ! i"
    by (simp add: sorted_iff_nth_mono del: nth_map)
  with assms(2,3,4) show ?thesis by simp
qed

lemma sorted_before_first:
  assumes "sorted (map time tideData)" and "i < length tideData" and "now < time (hd tideData)"
  shows "\<not> time (tideData ! i) \<le> now"
proof -
  from assms(2) have pos: "0 < length tideData" by (cases tideData) simp_all
  from assms(1,2) have "map time tideData ! 0 \<le> map time tideData ! i"
    by (simp add: sorted_iff_nth_mono del: nth_map)
  with pos assms(2) have "time (tideData ! 0) \<le> time (tideData ! i)" by simp
  moreover from pos have "hd tideData = tideData ! 0"
    by (simp add: hd_conv_nth)
  ultimately show ?thesis using assms(3) by simp
qed

lemma sorted_after_last:
  assumes "sorted (map time tideData)" and "i < length tideData" and "time (last tideData) \<le> now"
  shows "\<not> now < time (tideData ! i)"
proof -
  from assms(1,2) have "map time tideData ! i \<le> map time tideData ! (length tideData - 1)"
    by (simp add: sorted_iff_nth_mono del: nth_map)
  moreover from assms(2) have "last tideData = tideData ! (length tideData - 1)"
    by (metis last_conv_nth length_0_conv not_less_zero)
  ultimately show ?thesis using assms(2,3) by simp
qed

text \<open>
  Claim C5. If the samples \<open>i\<close> and \<open>i + 1\<close> bracket \<open>now\<close>, that is
  \<open>time i \<le> now < time (i + 1)\<close>, and the series is ordered by time (or, in any series, no
  earlier pair brackets \<open>now\<close>), \<open>getTideTrend\<close> returns \<open>rising\<close> when the prediction of
  sample \<open>i + 1\<close> is strictly greater than that of sample \<open>i\<close> and \<open>falling\<close> otherwise,
  so that equal predictions give \<open>falling\<close>. In a series ordered by time it returns
  \<open>unknown\<close> when \<open>now\<close> is before the first sample or at or after the last one; it
  returns \<open>unknown\<close> whenever no pair brackets \<open>now\<close>.
\<close>

theorem getTideTrend_cases:
  "(let now = orNow currentTime clock;
        result = getTideTrend clock tideData currentTime
    in (\<forall>i. Suc i < length tideData \<and>
             time (tideData ! i) \<le> now \<and> now < time (tideData ! Suc i) \<and>
             (sorted (map time tideData) \<or>
              (\<forall>j<i. \<not> (time (tideData ! j) \<le> now \<and> now < time (tideData ! Suc j)))) \<longrightarrow>
             result = (if prediction (tideData ! Suc i) > prediction (tideData ! i)
                       then ''rising'' else ''falling''))
     \<and> (sorted (map time tideData) \<and> tideData \<noteq> [] \<and>
          (now < time (hd tideData) \<or> time (last tideData) \<le> now) \<longrightarrow> result = ''unknown'')
     \<and> ((\<forall>i. Suc i < length tideData \<longrightarrow>
              \<not> (time (tideData ! i) \<le> now \<and> now < time (tideData ! Suc i))) \<longrightarrow>
          result = ''unknown''))"
proof -
  define now where "now = orNow currentTime clock"
  define result where "result = getTideTrend clock tideData currentTime"
  have res: "result = (case trendLoop tideData now 0 of
           None \<Rightarrow> ''unknown''
         | Some (before, after) \<Rightarrow>
             if prediction after > prediction before then ''rising'' else ''falling'')"
    unfolding result_def getTideTrend_def now_def Let_def by (rule refl)
  have found: "result = (if prediction (tideData ! Suc i) > prediction (tideData ! i)
                       then ''rising'' else ''falling'')"
    if "Suc i < length tideData \<and>
             time (tideData ! i) \<le> now \<and> now < time (tideData ! Suc i) \<and>
             (sorted (map time tideData) \<or>
              (\<forall>j<i. \<not> (time (tideData ! j) \<le> now \<and> now < time (tideData ! Suc j))))" for i
  proof -
    have "\<forall>j<i. \<not> (time (tideData ! j) \<le> now \<and> now < time (tideData ! Suc j))"
      using that bracket_unique [of tideData i now] by blast
    then have "trendLoop tideData now 0 = Some (tideData ! i, tideData ! Suc i)"
      using that by (intro trendLoop_first) auto
    then show ?thesis by (simp add: res)
  qed
  have none: "result = ''unknown''"
    if "\<forall>i. Suc i < length tideData \<longrightarrow>
              \<not> (time (tideData ! i) \<le> now \<and> now < time (tideData ! Suc i))"
    using trendLoop_none [of 0 tideData now] that by (simp add: res)
  have outside: "result = ''unknown''"
    if "sorted (map time tideData) \<and> tideData \<noteq> [] \<and>
          (now < time (hd tideData) \<or> time (last tideData) \<le> now)"
  proof (rule none, intro allI impI)
    fix i
    assume i: "Suc i < length tideData"
    from that have "now < time (hd tideData) \<or> time (last tideData) \<le> now" by blast
    then show "\<not> (time (tideData ! i) \<le> now \<and> now < time (tideData ! Suc i))"
    proof
      assume "now < time (hd tideData)"
      then show ?thesis using sorted_before_first [of tideData i now] that i by simp
    next
      assume "time (last tideData) \<le> now"
      then show ?thesis using sorted_after_last [of tideData "Suc i" now] that i by simp
    qed
  qed
  from found outside none show ?thesis
    unfolding now_def [symmetric] result_def [symmetric] Let_def
    by blast
qed

theorem getTideTrend_cases_witness:
  "sorted (map time twoWindowSeries)
   \<and> getTideTrend 0 twoWindowSeries (Some 29100000) = ''rising''
   \<and> getTideTrend 0 twoWindowSeries (Some 30900000) = ''falling''
   \<and> getTideTrend 0 twoWindowSeries (Some 31500000) = ''unknown''
   \<and> getTideTrend 0 twoWindowSeries (Some 0) = ''unknown''"
proof -
  have s: "sorted (map time twoWindowSeries)" by (simp add: twoWindowSeries_def)
  have a: "getTideTrend 0 twoWindowSeries (Some 29100000) = ''rising''"
    using getTideTrend_cases [of "Some 29100000" 0 twoWindowSeries, unfolded Let_def,
        THEN conjunct1, rule_format, of 0]
    by (simp add: twoWindowSeries_def orNow_def)
  have b: "getTideTrend 0 twoWindowSeries (Some 30900000) = ''falling''"
    using getTideTrend_cases [of "Some 30900000" 0 twoWindowSeries, unfolded Let_def,
        THEN conjunct1, rule_format, of 2]
    by (simp add: twoWindowSeries_def orNow_def)
  have c: "getTideTrend 0 twoWindowSeries (Some 31500000) = ''unknown''"
    using getTideTrend_cases [of "Some 31500000" 0 twoWindowSeries, unfolded Let_def,
        THEN conjunct2, THEN conjunct1]
    by (simp add: twoWindowSeries_def orNow_def)
  have d: "getTideTrend 0 twoWindowSeries (Some 0) = ''unknown''"
    using getTideTrend_cases [of "Some 0" 0 twoWindowSeries, unfolded Let_def,
        THEN conjunct2, THEN conjunct1]
    by (simp add: twoWindowSeries_def orNow_def)
  from s a b c d show ?thesis by blast
qed

section \<open>High and low tide\<close>

text \<open>A scan that replaces the kept element only by a strictly greater one ends at the
  first greatest element, or keeps what it started with.\<close>

lemma fold_keep_greater:
  fixes key :: "'a \<Rightarrow> real"
  defines "step \<equiv> (\<lambda>e kept. if key e > key kept then e else kept)"
  shows "(fold step xs h = h \<and> (\<forall>x\<in>set xs. key x \<le> key h)) \<or>
         (\<exists>i<length xs. fold step xs h = xs ! i \<and> key h < key (xs ! i) \<and>
            (\<forall>j<i. key (xs ! j) < key (xs ! i)) \<and>
            (\<forall>j<length xs. key (xs ! j) \<le> key (xs ! i)))"
proof (induction xs arbitrary: h)
  case Nil
  show ?case by simp
next
  case (Cons x xs)
  define h' where "h' = step x h"
  have fold_eq: "fold step (x # xs) h = fold step xs h'" by (simp add: h'_def)
  have h'_cases: "(key h < key x \<and> h' = x) \<or> (key x \<le> key h \<and> h' = h)"
    by (auto simp: h'_def step_def)
  have h'_ge: "key h \<le> key h'" "key x \<le> key h'" using h'_cases by auto
  from Cons.IH [of h'] show ?case
  proof
    assume keep: "fold step xs h' = h' \<and> (\<forall>y\<in>set xs. key y \<le> key h')"
    from h'_cases show ?thesis
    proof
      assume c: "key h < key x \<and> h' = x"
      have "fold step (x # xs) h = (x # xs) ! 0" using keep c fold_eq by simp
      moreover have "key h < key ((x # xs) ! 0)" using c by simp
      moreover have "\<forall>j<length (x # xs). key ((x # xs) ! j) \<le> key ((x # xs) ! 0)"
        using keep c by (auto simp: less_Suc_eq_0_disj)
      moreover have "0 < length (x # xs)" by simp
      moreover have "\<forall>j<0. key ((x # xs) ! j) < key ((x # xs) ! 0)" by simp
      ultimately show ?thesis by blast
    next
      assume c: "key x \<le> key h \<and> h' = h"
      with keep fold_eq show ?thesis by auto
    qed
  next
    assume "\<exists>i<length xs. fold step xs h' = xs ! i \<and> key h' < key (xs ! i) \<and>
            (\<forall>j<i. key (xs ! j) < key (xs ! i)) \<and>
            (\<forall>j<length xs. key (xs ! j) \<le> key (xs ! i))"
    then obtain i where i: "i < length xs" "fold step xs h' = xs ! i" "key h' < key (xs ! i)"
      "\<forall>j<i. key (xs ! j) < key (xs ! i)" "\<forall>j<length xs. key (xs ! j) \<le> key (xs ! i)"
      by blast
    have "Suc i < length (x # xs)" using i(1) by simp
    moreover have "fold step (x # xs) h = (x # xs) ! Suc i" using i(2) fold_eq by simp
    moreover have "key h < key ((x # xs) ! Suc i)" using i(3) h'_ge(1) by simp
    moreover have "\<forall>j<Suc i. key ((x # xs) ! j) < key ((x # xs) ! Suc i)"
      using i(3,4) h'_ge(2) by (auto simp: less_Suc_eq_0_disj)
    moreover have "\<forall>j<length (x # xs). key ((x # xs) ! j) \<le> key ((x # xs) ! Suc i)"
      using i(3,5) h'_ge(2) by (auto simp: less_Suc_eq_0_disj)
    ultimately show ?thesis by blast
  qed
qed

lemma fold_highLowStep:
  "fold highLowStep xs (h, l) =
     (fold (\<lambda>e kept. if prediction e > prediction kept then e else kept) xs h,
      fold (\<lambda>e kept. if - prediction e > - prediction kept then e else kept) xs l)"
  by (induction xs arbitrary: h l) (simp_all add: Let_def)

lemma first_greatest:
  fixes key :: "'a \<Rightarrow> real"
  assumes "xs \<noteq> []"
  shows "\<exists>i<length xs.
           fold (\<lambda>e kept. if key e > key kept then e else kept) xs (hd xs) = xs ! i \<and>
           (\<forall>j<length xs. key (xs ! j) \<le> key (xs ! i)) \<and>
           (\<forall>j<i. key (xs ! j) < key (xs ! i))"
proof -
  from assms have pos: "0 < length xs" and hd: "hd xs = xs ! 0"
    by (simp_all add: hd_conv_nth)
  from fold_keep_greater [of key xs "hd xs"] show ?thesis
  proof
    assume "fold (\<lambda>e kept. if key kept < key e then e else kept) xs (hd xs) = hd xs \<and>
            (\<forall>x\<in>set xs. key x \<le> key (hd xs))"
    then have "fold (\<lambda>e kept. if key e > key kept then e else kept) xs (hd xs) = xs ! 0 \<and>
           (\<forall>j<length xs. key (xs ! j) \<le> key (xs ! 0)) \<and>
           (\<forall>j<0. key (xs ! j) < key (xs ! 0))"
      using hd by simp
    with pos show ?thesis by blast
  next
    assume "\<exists>i<length xs. fold (\<lambda>e kept. if key kept < key e then e else kept) xs (hd xs) = xs ! i \<and>
              key (hd xs) < key (xs ! i) \<and>
              (\<forall>j<i. key (xs ! j) < key (xs ! i)) \<and> (\<forall>j<length xs. key (xs ! j) \<le> key (xs ! i))"
    then show ?thesis by blast
  qed
qed

text \<open>
  Claim C8. For the empty series \<open>findHighLowTides\<close> returns \<open>{high: null, low: null}\<close>.
  For a series that is not empty, \<open>high\<close> is the first sample that attains the greatest
  prediction (no sample has a greater one, every earlier sample has a strictly smaller one)
  and \<open>low\<close> is the first sample that attains the least prediction.
\<close>

theorem findHighLowTides_first_extremes:
  "findHighLowTides [] = \<lparr>high = None, low = None\<rparr>
   \<and> (tideData \<noteq> [] \<longrightarrow>
        (\<exists>i<length tideData.
            high (findHighLowTides tideData) = Some (tideData ! i) \<and>
            (\<forall>j<length tideData. prediction (tideData ! j) \<le> prediction (tideData ! i)) \<and>
            (\<forall>j<i. prediction (tideData ! j) < prediction (tideData ! i)))
      \<and> (\<exists>i<length tideData.
            low (findHighLowTides tideData) = Some (tideData ! i) \<and>
            (\<forall>j<length tideData. prediction (tideData ! i) \<le> prediction (tideData ! j)) \<and>
            (\<forall>j<i. prediction (tideData ! i) < prediction (tideData ! j))))"
proof -
  have empty: "findHighLowTides [] = \<lparr>high = None, low = None\<rparr>"
    by (simp add: findHighLowTides_def)
  have both: "(\<exists>i<length tideData.
            high (findHighLowTides tideData) = Some (tideData ! i) \<and>
            (\<forall>j<length tideData. prediction (tideData ! j) \<le> prediction (tideData ! i)) \<and>
            (\<forall>j<i. prediction (tideData ! j) < prediction (tideData ! i)))
      \<and> (\<exists>i<length tideData.
            low (findHighLowTides tideData) = Some (tideData ! i) \<and>
            (\<forall>j<length tideData. prediction (tideData ! i) \<le> prediction (tideData ! j)) \<and>
            (\<forall>j<i. prediction (tideData ! i) < prediction (tideData ! j)))"
    if ne: "tideData \<noteq> []"
  proof -
    from ne have hl: "findHighLowTides tideData =
        \<lparr>high = Some (fold (\<lambda>e kept. if prediction e > prediction kept then e else kept)
                         tideData (hd tideData)),
         low = Some (fold (\<lambda>e kept. if - prediction e > - prediction kept then e else kept)
                         tideData (hd tideData))\<rparr>"
      by (cases tideData) (simp_all add: findHighLowTides_def fold_highLowStep)
    from first_greatest [OF ne, of prediction] hl
    have hi: "\<exists>i<length tideData.
            high (findHighLowTides tideData) = Some (tideData ! i) \<and>
            (\<forall>j<length tideData. prediction (tideData ! j) \<le> prediction (tideData ! i)) \<and>
            (\<forall>j<i. prediction (tideData ! j) < prediction (tideData ! i))"
      by simp
    from first_greatest [OF ne, of "\<lambda>e. - prediction e"] hl
    have lo: "\<exists>i<length tideData.
            low (findHighLowTides tideData) = Some (tideData ! i) \<and>
            (\<forall>j<length tideData. prediction (tideData ! i) \<le> prediction (tideData ! j)) \<and>
            (\<forall>j<i. prediction (tideData ! i) < prediction (tideData ! j))"
      by simp
    from hi lo show ?thesis by blast
  qed
  from empty both show ?thesis by blast
qed


theorem findHighLowTides_first_extremes_witness:
  "scenarioSeries \<noteq> []
   \<and> high (findHighLowTides scenarioSeries) = Some (scenarioSeries ! 0)
   \<and> low (findHighLowTides scenarioSeries) = Some (scenarioSeries ! 2)"
  using findHighLowTides_first_extremes [of scenarioSeries]
  by (simp add: findHighLowTides_def scenarioSeries_def Let_def)

section \<open>The current status\<close>

lemma closestStep_cases:
  "(enat (nat \<bar>time x - now\<bar>) < m \<and>
      closestStep now x (c, m) = (Some x, enat (nat \<bar>time x - now\<bar>))) \<or>
   (m \<le> enat (nat \<bar>time x - now\<bar>) \<and> closestStep now x (c, m) = (c, m))"
  by (auto simp: Let_def)

lemma fold_closestStep:
  "(fold (closestStep now) xs (c, m) = (c, m) \<and>
      (\<forall>x\<in>set xs. m \<le> enat (nat \<bar>time x - now\<bar>))) \<or>
   (\<exists>i<length xs.
      fold (closestStep now) xs (c, m) = (Some (xs ! i), enat (nat \<bar>time (xs ! i) - now\<bar>)) \<and>
      enat (nat \<bar>time (xs ! i) - now\<bar>) < m \<and>
      (\<forall>j<i. \<bar>time (xs ! i) - now\<bar> < \<bar>time (xs ! j) - now\<bar>) \<and>
      (\<forall>j<length xs. \<bar>time (xs ! i) - now\<bar> \<le> \<bar>time (xs ! j) - now\<bar>))"
proof (induction xs arbitrary: c m)
  case Nil
  show ?case by simp
next
  case (Cons x xs)
  obtain c' m' where st: "closestStep now x (c, m) = (c', m')" by fastforce
  have fold_eq: "fold (closestStep now) (x # xs) (c, m) = fold (closestStep now) xs (c', m')"
    by (simp add: st del: closestStep.simps)
  from closestStep_cases [of x now m c] st
  have step: "(enat (nat \<bar>time x - now\<bar>) < m \<and> c' = Some x \<and> m' = enat (nat \<bar>time x - now\<bar>)) \<or>
              (m \<le> enat (nat \<bar>time x - now\<bar>) \<and> c' = c \<and> m' = m)"
    by auto
  then have m'_le: "m' \<le> m" "m' \<le> enat (nat \<bar>time x - now\<bar>)" by auto
  from Cons.IH [of c' m'] show ?case
  proof
    assume keep: "fold (closestStep now) xs (c', m') = (c', m') \<and>
                  (\<forall>y\<in>set xs. m' \<le> enat (nat \<bar>time y - now\<bar>))"
    from step show ?thesis
    proof
      assume a: "enat (nat \<bar>time x - now\<bar>) < m \<and> c' = Some x \<and> m' = enat (nat \<bar>time x - now\<bar>)"
      have "fold (closestStep now) (x # xs) (c, m) =
              (Some ((x # xs) ! 0), enat (nat \<bar>time ((x # xs) ! 0) - now\<bar>))"
        using keep a fold_eq by simp
      moreover have "enat (nat \<bar>time ((x # xs) ! 0) - now\<bar>) < m" using a by simp
      moreover have "\<forall>y\<in>set xs. \<bar>time x - now\<bar> \<le> \<bar>time y - now\<bar>"
        using keep a by (simp add: nat_le_eq_zle)
      then have "\<forall>j<length (x # xs). \<bar>time ((x # xs) ! 0) - now\<bar> \<le> \<bar>time ((x # xs) ! j) - now\<bar>"
        by (auto simp: less_Suc_eq_0_disj)
      moreover have "0 < length (x # xs)" by simp
      moreover have "\<forall>j<0. \<bar>time ((x # xs) ! 0) - now\<bar> < \<bar>time ((x # xs) ! j) - now\<bar>"
        by simp
      ultimately show ?thesis by blast
    next
      assume "m \<le> enat (nat \<bar>time x - now\<bar>) \<and> c' = c \<and> m' = m"
      with keep fold_eq show ?thesis by auto
    qed
  next
    assume "\<exists>i<length xs.
      fold (closestStep now) xs (c', m') = (Some (xs ! i), enat (nat \<bar>time (xs ! i) - now\<bar>)) \<and>
      enat (nat \<bar>time (xs ! i) - now\<bar>) < m' \<and>
      (\<forall>j<i. \<bar>time (xs ! i) - now\<bar> < \<bar>time (xs ! j) - now\<bar>) \<and>
      (\<forall>j<length xs. \<bar>time (xs ! i) - now\<bar> \<le> \<bar>time (xs ! j) - now\<bar>)"
    then obtain i where i: "i < length xs"
      "fold (closestStep now) xs (c', m') = (Some (xs ! i), enat (nat \<bar>time (xs ! i) - now\<bar>))"
      "enat (nat \<bar>time (xs ! i) - now\<bar>) < m'"
      "\<forall>j<i. \<bar>time (xs ! i) - now\<bar> < \<bar>time (xs ! j) - now\<bar>"
      "\<forall>j<length xs. \<bar>time (xs ! i) - now\<bar> \<le> \<bar>time (xs ! j) - now\<bar>"
      by blast
    from i(3) m'_le(2) have lt_x: "\<bar>time (xs ! i) - now\<bar> < \<bar>time x - now\<bar>"
    proof -
      from i(3) m'_le(2) have "enat (nat \<bar>time (xs ! i) - now\<bar>) < enat (nat \<bar>time x - now\<bar>)"
        by (rule less_le_trans)
      then show ?thesis by simp
    qed
    have "Suc i < length (x # xs)" using i(1) by simp
    moreover have "fold (closestStep now) (x # xs) (c, m) =
        (Some ((x # xs) ! Suc i), enat (nat \<bar>time ((x # xs) ! Suc i) - now\<bar>))"
      using i(2) fold_eq by simp
    moreover have "enat (nat \<bar>time ((x # xs) ! Suc i) - now\<bar>) < m"
      using i(3) m'_le(1) by simp
    moreover have "\<forall>j<Suc i. \<bar>time ((x # xs) ! Suc i) - now\<bar> < \<bar>time ((x # xs) ! j) - now\<bar>"
      using i(4) lt_x by (auto simp: less_Suc_eq_0_disj)
    moreover have "\<forall>j<length (x # xs).
        \<bar>time ((x # xs) ! Suc i) - now\<bar> \<le> \<bar>time ((x # xs) ! j) - now\<bar>"
      using i(5) lt_x by (auto simp: less_Suc_eq_0_disj)
    ultimately show ?thesis by blast
  qed
qed

lemma closest_nearest:
  assumes "tideData \<noteq> []"
  shows "\<exists>i<length tideData.
           fst (fold (closestStep now) tideData (None, \<infinity>)) = Some (tideData ! i) \<and>
           (\<forall>j<i. \<bar>time (tideData ! i) - now\<bar> < \<bar>time (tideData ! j) - now\<bar>) \<and>
           (\<forall>j<length tideData. \<bar>time (tideData ! i) - now\<bar> \<le> \<bar>time (tideData ! j) - now\<bar>)"
proof -
  from assms obtain x where "x \<in> set tideData" by (cases tideData) auto
  then have "\<not> (\<forall>x\<in>set tideData. (\<infinity>::enat) \<le> enat (nat \<bar>time x - now\<bar>))" by auto
  with fold_closestStep [of now tideData None \<infinity>] obtain i where
    "i < length tideData"
    "fold (closestStep now) tideData (None, \<infinity>) =
       (Some (tideData ! i), enat (nat \<bar>time (tideData ! i) - now\<bar>))"
    "\<forall>j<i. \<bar>time (tideData ! i) - now\<bar> < \<bar>time (tideData ! j) - now\<bar>"
    "\<forall>j<length tideData. \<bar>time (tideData ! i) - now\<bar> \<le> \<bar>time (tideData ! j) - now\<bar>"
    by blast
  then show ?thesis by (intro exI [of _ i]) simp
qed

lemma closest_empty: "fst (fold (closestStep now) [] (None, \<infinity>)) = None"
  by simp

text \<open>What the status classifier does on a series that is not empty.\<close>

lemma getCurrentAccessStatus_nearest:
  assumes "tideData \<noteq> []"
  shows "\<exists>i<length tideData.
           (\<forall>j<i. \<bar>time (tideData ! i) - orNow currentTime clock\<bar>
                    < \<bar>time (tideData ! j) - orNow currentTime clock\<bar>) \<and>
           (\<forall>j<length tideData. \<bar>time (tideData ! i) - orNow currentTime clock\<bar>
                    \<le> \<bar>time (tideData ! j) - orNow currentTime clock\<bar>) \<and>
           getCurrentAccessStatus clock tideData currentTime =
             \<lparr>accessible = (effectiveTide (tideData ! i) \<le> 11 / 10),
              status = (if effectiveTide (tideData ! i) \<le> 11 / 10
                        then ''accessible'' else ''not-accessible''),
              tide = Some (effectiveTide (tideData ! i)),
              entry = Some (tideData ! i)\<rparr>"
proof -
  from closest_nearest [OF assms, of "orNow currentTime clock"] obtain i where
    i: "i < length tideData"
       "fst (fold (closestStep (orNow currentTime clock)) tideData (None, \<infinity>)) = Some (tideData ! i)"
       "\<forall>j<i. \<bar>time (tideData ! i) - orNow currentTime clock\<bar>
                    < \<bar>time (tideData ! j) - orNow currentTime clock\<bar>"
       "\<forall>j<length tideData. \<bar>time (tideData ! i) - orNow currentTime clock\<bar>
                    \<le> \<bar>time (tideData ! j) - orNow currentTime clock\<bar>"
    by blast
  have "getCurrentAccessStatus clock tideData currentTime =
             \<lparr>accessible = (effectiveTide (tideData ! i) \<le> 11 / 10),
              status = (if effectiveTide (tideData ! i) \<le> 11 / 10
                        then ''accessible'' else ''not-accessible''),
              tide = Some (effectiveTide (tideData ! i)),
              entry = Some (tideData ! i)\<rparr>"
    unfolding getCurrentAccessStatus_def Let_def i(2)
    by (simp add: accessThreshold_def)
  with i(1,3,4) show ?thesis by blast
qed

text \<open>
  Claim C10. For a series that is not empty and any instant, however far from the samples,
  \<open>getCurrentAccessStatus\<close> returns the status \<open>accessible\<close> or \<open>not-accessible\<close> with a
  tide that is not \<open>null\<close>; the status \<open>unknown\<close> and the \<open>null\<close> tide occur exactly for
  the empty series.
\<close>

theorem getCurrentAccessStatus_known_iff_nonempty:
  "(tideData \<noteq> [] \<longrightarrow>
      (status (getCurrentAccessStatus clock tideData currentTime) = ''accessible'' \<or>
       status (getCurrentAccessStatus clock tideData currentTime) = ''not-accessible'') \<and>
      tide (getCurrentAccessStatus clock tideData currentTime) \<noteq> None)
   \<and> (status (getCurrentAccessStatus clock tideData currentTime) = ''unknown'' \<longleftrightarrow> tideData = [])
   \<and> (tide (getCurrentAccessStatus clock tideData currentTime) = None \<longleftrightarrow> tideData = [])"
proof (cases "tideData = []")
  case True
  then show ?thesis by (simp add: getCurrentAccessStatus_def)
next
  case False
  from getCurrentAccessStatus_nearest [OF False, of currentTime clock] obtain i where
    "getCurrentAccessStatus clock tideData currentTime =
             \<lparr>accessible = (effectiveTide (tideData ! i) \<le> 11 / 10),
              status = (if effectiveTide (tideData ! i) \<le> 11 / 10
                        then ''accessible'' else ''not-accessible''),
              tide = Some (effectiveTide (tideData ! i)),
              entry = Some (tideData ! i)\<rparr>"
    by blast
  with False show ?thesis by simp
qed

theorem getCurrentAccessStatus_known_iff_nonempty_witness:
  "scenarioSeries \<noteq> []
   \<and> status (getCurrentAccessStatus 0 scenarioSeries (Some 1000000000000000)) = ''not-accessible''
   \<and> tide (getCurrentAccessStatus 0 scenarioSeries (Some 1000000000000000)) = Some (12 / 10)
   \<and> status (getCurrentAccessStatus 0 scenarioSeries (Some (- 1000000000000000))) = ''not-accessible''
   \<and> tide (getCurrentAccessStatus 0 scenarioSeries (Some (- 1000000000000000))) = Some (13 / 10)"
  using getCurrentAccessStatus_known_iff_nonempty [of scenarioSeries 0 "Some 1000000000000000"]
    getCurrentAccessStatus_known_iff_nonempty [of scenarioSeries 0 "Some (- 1000000000000000)"]
  by (simp add: getCurrentAccessStatus_def scenarioSeries_def orNow_def Let_def
      effectiveTide_def accessThreshold_def)

text \<open>
  Claim C4 says that the reported tide is the nearest sample's observation whenever an
  observation is present. On a sample that holds the observation 0 and the prediction 2,
  \<open>getCurrentAccessStatus\<close> reports the tide 2 and \<open>not-accessible\<close>: \<open>||\<close> takes the observation
  0 for missing. Lemma \<open>getCurrentAccessStatus_nearest\<close> states what the function does on
  every series.
\<close>

theorem getCurrentAccessStatus_zero_observation:
  "getCurrentAccessStatus 0
     [\<lparr>time = 0, timeString = ''12:00 AM'', prediction = 2, observation = Some 0\<rparr>] (Some 0)
   = \<lparr>accessible = False, status = ''not-accessible'', tide = Some 2,
      entry = Some \<lparr>time = 0, timeString = ''12:00 AM'', prediction = 2, observation = Some 0\<rparr>\<rparr>"
  by (simp add: getCurrentAccessStatus_def orNow_def Let_def effectiveTide_def accessThreshold_def)

section \<open>The merger\<close>

lemma obsMapSet_apply:
  "obsMapSet ob m k = (if bucketStart (eventDate ob) = k then Some (val ob) else m k)"
  by (simp add: obsMapSet_def)

lemma fold_obsMapSet:
  "fold obsMapSet obs m k =
     (case filter (\<lambda>ob. bucketStart (eventDate ob) = k) obs of
        [] \<Rightarrow> m k
      | x # rest \<Rightarrow> Some (val (last (x # rest))))"
proof (induction obs arbitrary: m)
  case Nil
  show ?case by simp
next
  case (Cons ob obs)
  have "fold obsMapSet (ob # obs) m k = fold obsMapSet obs (obsMapSet ob m) k" by simp
  also have "\<dots> = (case filter (\<lambda>ob. bucketStart (eventDate ob) = k) obs of
        [] \<Rightarrow> obsMapSet ob m k
      | x # rest \<Rightarrow> Some (val (last (x # rest))))"
    by (rule Cons.IH)
  also have "\<dots> = (case filter (\<lambda>ob. bucketStart (eventDate ob) = k) (ob # obs) of
        [] \<Rightarrow> m k
      | x # rest \<Rightarrow> Some (val (last (x # rest))))"
    by (simp add: obsMapSet_apply split: list.split)
  finally show ?case .
qed

text \<open>What the merger does on every input: one row for each prediction on the quarter-hour
  grid, in the order of the input, with the value of the last grid observation of the same
  bucket passed through \<open>|| null\<close>.\<close>

lemma mergeTideData_rows:
  "mergeTideData h predictions observations =
     map (\<lambda>pred.
            \<lparr>time = eventDate pred, timeString = localeTime h (eventDate pred),
             prediction = val pred,
             observation =
               orNull (case filter (\<lambda>ob. bucketStart (eventDate ob) = bucketStart (eventDate pred))
                              (filter (onQuarterHour h) observations) of
                         [] \<Rightarrow> None
                       | x # rest \<Rightarrow> Some (val (last (x # rest))))\<rparr>)
         (filter (onQuarterHour h) predictions)"
  by (simp add: mergeTideData_def mergeRow_def Let_def filterQuarterHour_def buildObsMap_def
      fold_obsMapSet)

text \<open>
  Claim C3 says that a row's observation is the value of the last observation of its
  bucket and is absent only when there is none. For a prediction at an instant on the grid
  and an observation of 0 at the same instant, \<open>mergeTideData\<close> returns the row with no
  observation: \<open>obsMap.get(timestamp) || null\<close> takes the value 0 for missing.
\<close>

theorem mergeTideData_zero_observation:
  "mergeTideData pacificHost [\<lparr>eventDate = 0, val = 1\<rparr>] [\<lparr>eventDate = 0, val = 0\<rparr>]
   = [\<lparr>time = 0, timeString = localeTime pacificHost 0, prediction = 1, observation = None\<rparr>]"
  by (simp add: mergeTideData_def mergeRow_def Let_def filterQuarterHour_def buildObsMap_def
      obsMapSet_def onQuarterHour_def getMinutes_def bucketStart_def orNull_def pacificHost_def)

section \<open>Heights as text\<close>

lemma digit_cases: "d < 10 \<Longrightarrow> d \<in> {0, 1, 2, 3, 4, 5, 6, 7, 8, 9 :: nat}"
  by auto

lemma digitChar_digit:
  assumes "d < 10"
  shows "isDigit (digitChar d) \<and> (of_char (digitChar d) :: nat) - 48 = d
         \<and> \<not> isSpace (digitChar d) \<and> digitChar d \<noteq> CHR ''-'' \<and> digitChar d \<noteq> CHR ''+''"
  using digit_cases [OF assms]
  by (auto simp: digitChar_def isDigit_def isSpace_def)

lemma showNat_digits: "showNat n \<noteq> [] \<and> (\<forall>c\<in>set (showNat n). isDigit c)"
proof (induction n rule: showNat.induct)
  case (1 n)
  show ?case
  proof (cases "n < 10")
    case True
    then show ?thesis by (subst (1 2) showNat.simps) (simp add: digitChar_digit)
  next
    case False
    then have "n mod 10 < 10" by simp
    with False 1 show ?thesis by (subst (1 2) showNat.simps) (simp add: digitChar_digit)
  qed
qed

lemma digitsValue_snoc:
  "digitsValue (ds @ [c]) = 10 * digitsValue ds + ((of_char c :: nat) - 48)"
  by (simp add: digitsValue_def)

lemma digitsValue_showNat: "digitsValue (showNat n) = n"
proof (induction n rule: showNat.induct)
  case (1 n)
  show ?case
  proof (cases "n < 10")
    case True
    then show ?thesis
      by (subst showNat.simps) (simp add: digitsValue_def digitChar_digit)
  next
    case False
    then have "n mod 10 < 10" by simp
    with False 1 show ?thesis
      by (subst showNat.simps) (simp add: digitsValue_snoc digitChar_digit)
  qed
qed

lemma hd_showNat: "\<exists>c cs. showNat n = c # cs \<and> isDigit c \<and> \<not> isSpace c \<and> c \<noteq> CHR ''-'' \<and> c \<noteq> CHR ''+''"
proof -
  obtain c cs where s: "showNat n = c # cs" using showNat_digits [of n] by (cases "showNat n") auto
  then have d: "isDigit c" using showNat_digits [of n] by simp
  then have "\<not> isSpace c" "c \<noteq> CHR ''-''" "c \<noteq> CHR ''+''"
    by (auto simp: isDigit_def isSpace_def)
  with s d show ?thesis by blast
qed

lemma parseFloat_fixed:
  assumes "a < 10" and "b < 10"
  shows "parseFloat (showNat q @ ''.'' @ [digitChar a, digitChar b] @ ''m'') =
           Some (real q + real (10 * a + b) / 100)"
proof -
  let ?tail = "CHR ''.'' # [digitChar a, digitChar b] @ ''m''"
  let ?s = "showNat q @ ?tail"
  obtain c cs where c: "showNat q = c # cs" "isDigit c" "\<not> isSpace c" "c \<noteq> CHR ''-''" "c \<noteq> CHR ''+''"
    using hd_showNat by blast
  have all: "\<And>x. x \<in> set (showNat q) \<Longrightarrow> isDigit x" using showNat_digits by blast
  have nd: "\<not> isDigit CHR ''.''" "\<not> isDigit CHR ''m''" by (simp_all add: isDigit_def)
  have sp: "dropWhile isSpace ?s = ?s" using c by simp
  have sg: "readSign ?s = (False, ?s)" using c by simp
  have tw: "takeWhile isDigit ?s = showNat q"
    using all nd by (simp add: takeWhile_append2)
  have dw: "dropWhile isDigit ?s = ?tail"
    using all nd by (simp add: dropWhile_append2)
  have fr: "takeWhile isDigit ([digitChar a, digitChar b] @ ''m'') = [digitChar a, digitChar b]"
    using assms nd by (simp add: digitChar_digit)
  have af: "dropWhile isDigit ([digitChar a, digitChar b] @ ''m'') = ''m''"
    using assms nd by (simp add: digitChar_digit)
  have fv: "digitsValue [digitChar a, digitChar b] = 10 * a + b"
    using assms by (simp add: digitsValue_def digitChar_digit)
  have ne: "showNat q \<noteq> []" using c by simp
  have "parseFloat ?s = Some (real q + real (10 * a + b) / 100)"
    unfolding parseFloat_def sp sg
    by (simp add: Let_def tw dw fr af fv ne digitsValue_showNat del: append.simps)
  then show ?thesis by simp
qed


lemma two_digits: "100 * (n div 100) + (10 * (n div 10 mod 10) + n mod 10) = (n :: nat)"
proof -
  have "n mod (10 * 10) = 10 * (n div 10 mod 10) + n mod 10" by (rule mod_mult2_eq)
  then have "10 * (n div 10 mod 10) + n mod 10 = n mod 100" by simp
  then show ?thesis by simp
qed


lemma toFixed2_nonneg:
  assumes "0 \<le> x"
  shows "toFixed2 x =
      showNat (nat \<lfloor>x * 100 + 1 / 2\<rfloor> div 100) @ ''.'' @
        [digitChar (nat \<lfloor>x * 100 + 1 / 2\<rfloor> div 10 mod 10), digitChar (nat \<lfloor>x * 100 + 1 / 2\<rfloor> mod 10)]"
proof -
  from assms have "\<bar>x\<bar> = x" "\<not> x < 0" by simp_all
  then show ?thesis unfolding toFixed2_def Let_def by simp
qed


text \<open>What the round trip through the metres display gives for a height that is not
  negative: the height in hundredths, rounded, divided by 100 once more.\<close>

lemma parseHeight_formatHeight_meters_general:
  assumes "0 \<le> x"
  shows "parseHeight (formatHeight x ''meters'') ''meters''
           = Some (real (nat \<lfloor>x * 100 + 1 / 2\<rfloor>) / 10000)"
proof -
  define n where "n = nat \<lfloor>x * 100 + 1 / 2\<rfloor>"
  have fmt: "formatHeight x ''meters'' =
      showNat (n div 100) @ ''.'' @ [digitChar (n div 10 mod 10), digitChar (n mod 10)] @ ''m''"
    unfolding formatHeight_def n_def using toFixed2_nonneg [OF assms] by simp
  have "real (100 * (n div 100) + (10 * (n div 10 mod 10) + n mod 10)) = real n"
    by (simp only: two_digits)
  then have val: "real (n div 100) + real (10 * (n div 10 mod 10) + n mod 10) / 100 = real n / 100"
    by (simp add: field_simps)
  have d: "n div 10 mod 10 < 10" "n mod 10 < 10" by simp_all
  have "parseFloat (formatHeight x ''meters'') = Some (real n / 100)"
    unfolding fmt parseFloat_fixed [OF d] val by (rule refl)
  then show ?thesis unfolding parseHeight_def n_def by simp
qed

text \<open>
  Claim C6 says that \<open>parseHeight(formatHeight(x, 'meters'), 'meters')\<close> gives \<open>x\<close> back up to
  the rounding of the two decimals. For \<open>x = 1.25\<close> the text is \<open>1.25m\<close> and \<open>parseHeight\<close>
  returns \<open>0.0125\<close>: it reads the text as centimetres and divides by 100. Lemma
  \<open>parseHeight_formatHeight_meters_general\<close> gives the result for every height from 0 on.
\<close>

theorem parseHeight_formatHeight_meters:
  "formatHeight (5 / 4) ''meters'' = ''1.25m''
   \<and> parseHeight (formatHeight (5 / 4) ''meters'') ''meters'' = Some (1 / 80)"
  by (simp add: formatHeight_def toFixed2_def showNat.simps digitChar_def Let_def
      parseHeight_def parseFloat_def isSpace_def isDigit_def digitsValue_def)

section \<open>Observations of a day to come\<close>

lemma later_day_later_midnight:
  assumes "strict_mono (dayStart h)" and "localDay h clock < localDay h date"
  shows "setHours0 h date > setHours0 h clock"
  using assms by (simp add: setHours0_def strict_mono_def)

text \<open>
  Claim C9. When the local calendar day of the requested date is strictly after the local
  calendar day of the clock, on a host whose local midnights come in the order of their
  days, \<open>fetchObservations\<close> returns the empty sequence and leaves the client as it was: no
  request is made, whatever the network would answer, and the cache is neither read nor
  written.
\<close>

theorem fetchObservations_future_day:
  assumes "strict_mono (dayStart h)" and "localDay h clock < localDay h date"
  shows "fetchObservations h net clock clockAfter date s = (Inr [], s)
         \<and> requests (snd (fetchObservations h net clock clockAfter date s)) = requests s"
proof -
  have "setHours0 h date > setHours0 h clock"
    using assms by (rule later_day_later_midnight)
  then have "fetchObservations h net clock clockAfter date s = (Inr [], s)"
    by (simp add: fetchObservations_def Let_def)
  then show ?thesis by simp
qed

theorem fetchObservations_future_day_witness:
  "strict_mono (dayStart pacificHost)
   \<and> localDay pacificHost 1762077600000 < localDay pacificHost 1762164000000
   \<and> fetchObservations pacificHost (\<lambda>r. Thrown ''offline'') 1762077600000 1762077600500
        1762164000000 emptyClient = (Inr [], emptyClient)
   \<and> requests (snd (fetchObservations pacificHost (\<lambda>r. Thrown ''offline'') 1762077600000
        1762077600500 1762164000000 emptyClient)) = []"
proof -
  have m: "strict_mono (dayStart pacificHost)"
    by (simp add: strict_mono_def pacificHost_def)
  have d: "localDay pacificHost 1762077600000 < localDay pacificHost 1762164000000"
    by (simp add: localDay_def pacificHost_def)
  from fetchObservations_future_day [OF m d, of "\<lambda>r. Thrown ''offline''" 1762077600500 emptyClient]
  show ?thesis using m d by (simp add: emptyClient_def)
qed

text \<open>On a day that is not in the future and has no cache entry, one request goes out.\<close>

lemma fetchObservations_requests_when_due:
  assumes "\<not> setHours0 h date > setHours0 h clock"
    and "observationsCache s (getCacheKey date) = None"
  shows "requests (snd (fetchObservations h net clock clockAfter date s)) =
           requests s @ [\<lparr>seriesCode = ''wlo'', fromDate = setHours0 h date,
                           toDate = endOfDay h date\<rparr>]"
  using assms
  by (simp add: fetchObservations_def fetchFresh_def Let_def split: response.split)

end
